theory Spec2Isabelle
  imports Complex_Main
begin

section \<open>Data model\<close>

text \<open>
  Errors of the learner. A \<^verbatim>\<open>throw std::runtime_error(msg)\<close> is \<open>RuntimeError msg\<close>; the
  \<^verbatim>\<open>std::out_of_range\<close> of a failed \<^verbatim>\<open>at\<close> is \<open>OutOfRange\<close>; a failed \<^verbatim>\<open>assert\<close> aborts the process
  and is \<open>AssertionFailed\<close>; \<open>OutOfBounds\<close> is a read with \<^verbatim>\<open>operator[]\<close> beyond the end of a
  vector, which is undefined behaviour, where a model makes it explicit; \<open>InvalidIterator\<close> is
  the use of an iterator or of a reference into a \<^verbatim>\<open>std::set\<close> after the element it points to
  was erased, which is undefined behaviour as well.
\<close>

datatype error = RuntimeError string | OutOfRange | AssertionFailed | OutOfBounds
  | InvalidIterator

text \<open>
  Modelled from the spec: \<^verbatim>\<open>datapoint.h\<close> and \<^verbatim>\<open>horn_constraint.h\<close> are not part of the
  sources at hand; the records below carry the fields that \<^verbatim>\<open>sorcar copy.h\<close> reads. The
  entries of \<open>int_data\<close> are the truth values of the atomic predicates (\<open>0\<close> is false, every
  other value is true, as the tests \<^verbatim>\<open>!dp._int_data[c]\<close> and \<^verbatim>\<open>dp._int_data[p] == 0\<close> read
  them); the location of a data point is \<^verbatim>\<open>_categorical_data[0]\<close>. A Horn constraint points to
  its premises and to its conclusion, the null pointer standing for \<open>\<bottom>\<close>; the data points are
  never changed by the learner, so the model stores the data point a pointer refers to.
\<close>

record datapoint =
  categorical_data :: "nat list"
  int_data :: "int list"
  classification :: bool
  is_classified :: bool

record horn_constraint =
  hc_premises :: "datapoint list"
  hc_conclusion :: "datapoint option"

definition loc_id :: "datapoint \<Rightarrow> nat" where
  "loc_id dp = categorical_data dp ! 0"

text \<open>
  The vectors are read with \<open>!\<close> where the source reads them with \<^verbatim>\<open>operator[]\<close>. A read beyond
  the end of a vector is undefined behaviour in C++ and an unspecified value here. The
  predicate \<open>wf_sample\<close> below says that the locations and the truth values of a sample are
  all there; the theorems either assume it or hold whatever value such a read gives. The
  locations that Horndini checks with \<^verbatim>\<open>assert\<close> are checked in the model; the assertions of
  the reducers are modelled for both builds, with and without \<^verbatim>\<open>NDEBUG\<close>, and without them
  the reads of the reducers are as unchecked as the others.
\<close>

text \<open>
  A conjunction is a \<^verbatim>\<open>std::set<unsigned>\<close>: the model is the list of its elements in
  iteration order, which is strictly increasing.
\<close>

type_synonym conjunction = "nat list"

subsection \<open>\<^verbatim>\<open>sorcar::satisfies\<close>\<close>

fun satisfies :: "datapoint \<Rightarrow> conjunction \<Rightarrow> bool" where
  "satisfies dp [] = True"
| "satisfies dp (c # cs) = (if int_data dp ! c = 0 then False else satisfies dp cs)"

text \<open>
  \<^verbatim>\<open>std::set::insert\<close> (with or without a position hint) on the sorted list of elements.
\<close>

fun set_insert :: "nat \<Rightarrow> conjunction \<Rightarrow> conjunction" where
  "set_insert x [] = [x]"
| "set_insert x (y # ys) =
     (if x < y then x # y # ys else if x = y then y # ys else y # set_insert x ys)"

subsection \<open>\<^verbatim>\<open>sorcar::is_consistent\<close>\<close>

text \<open>The loop over the premises, which stops at the first premise that fails its conjunction.\<close>

fun lhs_satisfied :: "conjunction list \<Rightarrow> datapoint list \<Rightarrow> bool" where
  "lhs_satisfied R [] = True"
| "lhs_satisfied R (dp # dps) =
     (if \<not> satisfies dp (R ! loc_id dp) then False else lhs_satisfied R dps)"

fun check_datapoints :: "conjunction list \<Rightarrow> datapoint list \<Rightarrow> bool" where
  "check_datapoints predicates [] = True"
| "check_datapoints predicates (dp # dps) =
     (if is_classified dp then
        (let cl = satisfies dp (predicates ! loc_id dp) in
         if cl \<and> \<not> classification dp then False
         else if \<not> cl \<and> classification dp then False
         else check_datapoints predicates dps)
      else check_datapoints predicates dps)"

definition conclusion_satisfied :: "conjunction list \<Rightarrow> horn_constraint \<Rightarrow> bool" where
  "conclusion_satisfied R hc =
     (case hc_conclusion hc of None \<Rightarrow> False | Some c \<Rightarrow> satisfies c (R ! loc_id c))"

fun check_horn_constraints :: "conjunction list \<Rightarrow> horn_constraint list \<Rightarrow> bool" where
  "check_horn_constraints predicates [] = True"
| "check_horn_constraints predicates (hc # hcs) =
     (let satisfies_lhs = lhs_satisfied predicates (hc_premises hc) in
      if satisfies_lhs \<and> \<not> conclusion_satisfied predicates hc then False
      else check_horn_constraints predicates hcs)"

definition is_consistent ::
  "conjunction list \<Rightarrow> datapoint list \<Rightarrow> horn_constraint list \<Rightarrow> bool" where
  "is_consistent predicates datapoints horn_constraints =
     (if \<not> check_datapoints predicates datapoints then False
      else check_horn_constraints predicates horn_constraints)"

subsection \<open>\<^verbatim>\<open>sorcar::prepare_sets\<close>\<close>

text \<open>
  The merge walk over \<open>R[i]\<close> and \<open>X[i]\<close> for one location. The first argument is what is left
  of \<open>X[i]\<close> from \<^verbatim>\<open>X_it\<close> on, the second what is left of \<open>R[i]\<close> from \<^verbatim>\<open>R_it\<close> on, the third
  the current \<open>X_minus_R[i]\<close>. The result is the part of \<open>R[i]\<close> from \<^verbatim>\<open>R_it\<close> on that is kept,
  and the final \<open>X_minus_R[i]\<close>. The last two equations are the two statements after the
  loop: the rest of \<open>R[i]\<close> is erased, the rest of \<open>X[i]\<close> is inserted into \<open>X_minus_R[i]\<close>.
\<close>

fun prepare_walk :: "conjunction \<Rightarrow> conjunction \<Rightarrow> conjunction \<Rightarrow> conjunction \<times> conjunction" where
  "prepare_walk (x # xs) (r # rs) xmr =
     (if r < x then prepare_walk (x # xs) rs xmr
      else if x < r then prepare_walk xs (r # rs) (set_insert x xmr)
      else (case prepare_walk xs rs xmr of (rs', xmr') \<Rightarrow> (r # rs', xmr')))"
| "prepare_walk xs [] xmr = ([], fold set_insert xs xmr)"
| "prepare_walk [] rs xmr = ([], xmr)"

definition prepare_step ::
  "conjunction list \<Rightarrow> nat \<Rightarrow> conjunction list \<times> conjunction list
     \<Rightarrow> conjunction list \<times> conjunction list" where
  "prepare_step X i = (\<lambda>(R, X_minus_R).
     case prepare_walk (X ! i) (R ! i) (X_minus_R ! i) of
       (r', xmr') \<Rightarrow> (R[i := r'], X_minus_R[i := xmr']))"

definition prepare_sets ::
  "conjunction list \<Rightarrow> conjunction list \<Rightarrow> conjunction list
     \<Rightarrow> conjunction list \<times> conjunction list" where
  "prepare_sets X R X_minus_R = fold (prepare_step X) [0 ..< length X] (R, X_minus_R)"

subsection \<open>\<^verbatim>\<open>sorcar::horndini\<close>\<close>

text \<open>
  The wrapper fills each conjunction with its interval:
  \<^verbatim>\<open>for (unsigned j = first; j <= second; ++j) conjunction.insert(conjunction.end(), j)\<close>.
  The counter is a 32-bit \<^verbatim>\<open>unsigned\<close>, so \<^verbatim>\<open>++j\<close> wraps around and the loop does not end
  when \<open>second\<close> is the largest value of the type: not returning is the value \<open>None\<close>.
\<close>

partial_function (option) fill_interval :: "nat \<Rightarrow> nat \<Rightarrow> conjunction \<Rightarrow> conjunction option" where
  "fill_interval j hi conjunction =
     (if j \<le> hi then fill_interval ((j + 1) mod 2 ^ 32) hi (set_insert j conjunction)
      else Some conjunction)"

fun initial_conjunctions :: "(nat \<times> nat) list \<Rightarrow> conjunction list option" where
  "initial_conjunctions [] = Some []"
| "initial_conjunctions (iv # ivs) =
     (case fill_interval (fst iv) (snd iv) [] of
        None \<Rightarrow> None
      | Some c \<Rightarrow>
          (case initial_conjunctions ivs of None \<Rightarrow> None | Some cs \<Rightarrow> Some (c # cs)))"

text \<open>
  Knocking out, from the conjunction of its location, the predicates that a positive data
  point falsifies; the \<^verbatim>\<open>assert\<close> on the location comes first.
\<close>

definition knock_out :: "datapoint \<Rightarrow> conjunction \<Rightarrow> conjunction" where
  "knock_out dp cj = filter (\<lambda>p. int_data dp ! p \<noteq> 0) cj"

fun process_positive :: "datapoint list \<Rightarrow> conjunction list \<Rightarrow> error + conjunction list" where
  "process_positive [] conjunctions = Inr conjunctions"
| "process_positive (dp # dps) conjunctions =
     (let k = loc_id dp in
      if k < length conjunctions
      then process_positive dps (conjunctions[k := knock_out dp (conjunctions ! k)])
      else Inl AssertionFailed)"

text \<open>
  The walk over the premises of one constraint of the working copy: a premise that
  satisfies the conjunction of its location is erased from the copy.
\<close>

fun discharge :: "conjunction list \<Rightarrow> datapoint list \<Rightarrow> error + datapoint list" where
  "discharge conjunctions [] = Inr []"
| "discharge conjunctions (p # ps) =
     (let k = loc_id p in
      if k < length conjunctions then
        (case discharge conjunctions ps of
           Inl e \<Rightarrow> Inl e
         | Inr ps' \<Rightarrow> if satisfies p (conjunctions ! k) then Inr ps' else Inr (p # ps'))
      else Inl AssertionFailed)"

text \<open>
  One walk over the working copy of the Horn constraints. A constraint whose premises are
  all discharged either ends the run (conclusion \<open>\<bottom>\<close>) or hands its conclusion over as a new
  positive data point and leaves the list. The result is the new list of positive data
  points and the new working copy.
\<close>

fun fire :: "conjunction list \<Rightarrow> horn_constraint list
    \<Rightarrow> error + (datapoint list \<times> horn_constraint list)" where
  "fire conjunctions [] = Inr ([], [])"
| "fire conjunctions (hc # hcs) =
     (case discharge conjunctions (hc_premises hc) of
        Inl e \<Rightarrow> Inl e
      | Inr ps \<Rightarrow>
          if ps = [] then
            (case hc_conclusion hc of
               None \<Rightarrow> Inl (RuntimeError ''No consistent conjunction exists'')
             | Some c \<Rightarrow>
                 (case fire conjunctions hcs of
                    Inl e \<Rightarrow> Inl e
                  | Inr (positive, hcs') \<Rightarrow> Inr (c # positive, hcs')))
          else
            (case fire conjunctions hcs of
               Inl e \<Rightarrow> Inl e
             | Inr (positive, hcs') \<Rightarrow> Inr (positive, hc\<lparr>hc_premises := ps\<rparr> # hcs')))"

lemma fire_length:
  "fire conjunctions hcs = Inr (positive, hcs') \<Longrightarrow> length positive + length hcs' = length hcs"
  by (induction hcs arbitrary: positive hcs')
     (auto split: sum.splits if_splits option.splits prod.splits)

text \<open>
  The \<^verbatim>\<open>do ... while (!positive.empty())\<close> loop. The conjunctions are changed in place, so
  the caller of \<^verbatim>\<open>void horndini(datapoints, horn_constraints, conjunctions)\<close> sees them also
  when the run ends with an exception: the result is the conjunction vector at the end of
  the run and the error raised, if any.
\<close>

function horndini_loop :: "conjunction list \<Rightarrow> datapoint list \<Rightarrow> horn_constraint list
    \<Rightarrow> conjunction list \<times> error option" where
  "horndini_loop conjunctions positive copy_of_hc =
     (case process_positive positive conjunctions of
        Inl e \<Rightarrow> (conjunctions, Some e)
      | Inr conjunctions' \<Rightarrow>
          (case fire conjunctions' copy_of_hc of
             Inl e \<Rightarrow> (conjunctions', Some e)
           | Inr (positive', copy_of_hc') \<Rightarrow>
               if positive' \<noteq> [] then horndini_loop conjunctions' positive' copy_of_hc'
               else (conjunctions', None)))"
  by pat_completeness auto
termination
proof (relation "measure (\<lambda>(c, p, h). length h)")
  show "wf (measure (\<lambda>(c, p, h). length h))" by simp
next
  fix conjunctions :: "conjunction list" and positive copy_of_hc x2 x2a x y
  assume "fire x2 copy_of_hc = Inr x2a" "(x, y) = x2a" "x \<noteq> []"
  then have "length x + length y = length copy_of_hc" "x \<noteq> []"
    using fire_length[of x2 copy_of_hc x y] by simp_all
  then have "length y < length copy_of_hc" by (cases x) simp_all
  then show "((x2, x, y), conjunctions, positive, copy_of_hc) \<in> measure (\<lambda>(c, p, h). length h)"
    by simp
qed

definition horndini_core :: "datapoint list \<Rightarrow> horn_constraint list \<Rightarrow> conjunction list
    \<Rightarrow> conjunction list \<times> error option" where
  "horndini_core datapoints horn_constraints conjunctions =
     horndini_loop conjunctions
       (filter (\<lambda>dp. is_classified dp \<and> classification dp) datapoints) horn_constraints"

definition horndini :: "datapoint list \<Rightarrow> horn_constraint list \<Rightarrow> (nat \<times> nat) list
    \<Rightarrow> (error + conjunction list) option" where
  "horndini datapoints horn_constraints intervals =
     (if intervals = [] then Some (Inl (RuntimeError ''Intervals are empty''))
      else
        (case initial_conjunctions intervals of
           None \<Rightarrow> None
         | Some conjunctions \<Rightarrow>
             (case horndini_core datapoints horn_constraints conjunctions of
                (X, None) \<Rightarrow> Some (Inr X)
              | (X, Some e) \<Rightarrow> Some (Inl e))))"

subsection \<open>Assertions\<close>

text \<open>
  The reducers check with \<^verbatim>\<open>assert\<close> what they compute: the locations, that a set has grown,
  that a predicate was added and, last, that the result is consistent. An \<^verbatim>\<open>assert\<close> aborts
  the process when its condition is false, and is no code at all when the translation unit
  is compiled with \<^verbatim>\<open>NDEBUG\<close>. The sources at hand do not fix the build, so the reducers take
  it as their first argument.
\<close>

datatype build = Debug | NDEBUG

definition assert_fails :: "build \<Rightarrow> bool \<Rightarrow> bool" where
  "assert_fails b c \<longleftrightarrow> b = Debug \<and> \<not> c"

subsection \<open>\<^verbatim>\<open>sorcar::reduce_predicates_all\<close>\<close>

text \<open>
  The state of a reducer is the pair of \<open>R\<close> and \<open>X_minus_R\<close>. The walk over
  \<open>X_minus_R[id]\<close> that moves every predicate which the data point falsifies into \<open>R[id]\<close>:
  the first argument is \<open>X_minus_R[id]\<close> from the iterator on, the second the current \<open>R[id]\<close>;
  the result is the new \<open>R[id]\<close> and what the walk leaves of \<open>X_minus_R[id]\<close>.
\<close>

type_synonym reducer_state = "conjunction list \<times> conjunction list"

fun move_zeros :: "datapoint \<Rightarrow> conjunction \<Rightarrow> conjunction \<Rightarrow> conjunction \<times> conjunction" where
  "move_zeros dp [] r = (r, [])"
| "move_zeros dp (p # ps) r =
     (if int_data dp ! p = 0 then move_zeros dp ps (set_insert p r)
      else (case move_zeros dp ps r of (r', ps') \<Rightarrow> (r', p # ps')))"

definition add_all :: "datapoint \<Rightarrow> reducer_state \<Rightarrow> reducer_state" where
  "add_all dp = (\<lambda>(R, X_minus_R).
     let k = loc_id dp in
     case move_zeros dp (X_minus_R ! k) (R ! k) of
       (r', xmr') \<Rightarrow> (R[k := r'], X_minus_R[k := xmr']))"

text \<open>The loop over the data points that processes the negative examples.\<close>

fun negative_all :: "build \<Rightarrow> conjunction list \<Rightarrow> datapoint list \<Rightarrow> reducer_state
    \<Rightarrow> error + reducer_state" where
  "negative_all b X [] st = Inr st"
| "negative_all b X (dp # dps) st =
     (let k = loc_id dp in
      if assert_fails b (k < length (fst st)) then Inl AssertionFailed
      else if is_classified dp \<and> \<not> classification dp \<and> satisfies dp (fst st ! k) then
        (if assert_fails b (\<not> satisfies dp (X ! k)) then Inl AssertionFailed
         else
           (let size_before = length (fst st ! k); st' = add_all dp st in
            if assert_fails b (size_before < length (fst st' ! k)) then Inl AssertionFailed
            else negative_all b X dps st'))
      else negative_all b X dps st)"

text \<open>
  The check of the left-hand side of a Horn constraint in the reducers, with its
  \<^verbatim>\<open>assert\<close> on the location of each premise it looks at.
\<close>

fun lhs_satisfied_asserting :: "build \<Rightarrow> conjunction list \<Rightarrow> datapoint list \<Rightarrow> error + bool" where
  "lhs_satisfied_asserting b R [] = Inr True"
| "lhs_satisfied_asserting b R (dp # dps) =
     (if assert_fails b (loc_id dp < length R) then Inl AssertionFailed
      else if \<not> satisfies dp (R ! loc_id dp) then Inr False
      else lhs_satisfied_asserting b R dps)"

text \<open>
  One walk over the list of pointers to Horn constraints. The result is the list after the
  walk, the new state and the flag \<^verbatim>\<open>added_relevant_predicate\<close>: a constraint whose left-hand
  side fails is erased; a constraint that is satisfied stays in the list (\<^verbatim>\<open>++hc_it\<close>); for any
  other constraint the predicates are added, the constraint is erased and the flag is
  cleared.
\<close>

fun scan_all :: "build \<Rightarrow> horn_constraint list \<Rightarrow> reducer_state
    \<Rightarrow> error + (horn_constraint list \<times> reducer_state \<times> bool)" where
  "scan_all b [] st = Inr ([], st, True)"
| "scan_all b (hc # hcs) st =
     (case lhs_satisfied_asserting b (fst st) (hc_premises hc) of
        Inl e \<Rightarrow> Inl e
      | Inr lhs \<Rightarrow>
          if \<not> lhs then scan_all b hcs st
          else if conclusion_satisfied (fst st) hc then
            (case scan_all b hcs st of
               Inl e \<Rightarrow> Inl e
             | Inr (hcs', st', flag) \<Rightarrow> Inr (hc # hcs', st', flag))
          else
            (case scan_all b hcs (fold add_all (hc_premises hc) st) of
               Inl e \<Rightarrow> Inl e
             | Inr (hcs', st', flag) \<Rightarrow> Inr (hcs', st', False)))"

lemma scan_all_length:
  "scan_all b hcs st = Inr (hcs', st', flag) \<Longrightarrow>
     length hcs' \<le> length hcs \<and> (\<not> flag \<longrightarrow> length hcs' < length hcs)"
proof (induction hcs arbitrary: st hcs' st' flag)
  case Nil
  then show ?case by simp
next
  case (Cons hc hcs)
  from Cons.prems obtain lhs where l: "lhs_satisfied_asserting b (fst st) (hc_premises hc) = Inr lhs"
    by (auto split: sum.splits)
  show ?case
  proof (cases lhs)
    case False
    with Cons.prems l have "scan_all b hcs st = Inr (hcs', st', flag)" by simp
    from Cons.IH[OF this] show ?thesis by simp
  next
    case True
    show ?thesis
    proof (cases "conclusion_satisfied (fst st) hc")
      case sat: True
      with Cons.prems l True obtain hcs1 where s: "scan_all b hcs st = Inr (hcs1, st', flag)"
        and h: "hcs' = hc # hcs1"
        by (auto split: sum.splits prod.splits)
      from Cons.IH[OF s] h show ?thesis by simp
    next
      case unsat: False
      with Cons.prems l True obtain flag1 where
        s: "scan_all b hcs (fold add_all (hc_premises hc) st) = Inr (hcs', st', flag1)"
        by (auto split: sum.splits prod.splits)
      from Cons.IH[OF s] show ?thesis by simp
    qed
  qed
qed

text \<open>The \<^verbatim>\<open>do ... while (!added_relevant_predicate)\<close> loop.\<close>

function horn_loop_all :: "build \<Rightarrow> horn_constraint list \<Rightarrow> reducer_state
    \<Rightarrow> error + reducer_state" where
  "horn_loop_all b horn_constraint_pointers st =
     (case scan_all b horn_constraint_pointers st of
        Inl e \<Rightarrow> Inl e
      | Inr (hcs', st', added_relevant_predicate) \<Rightarrow>
          if \<not> added_relevant_predicate then horn_loop_all b hcs' st' else Inr st')"
  by pat_completeness auto
termination
proof (relation "measure (\<lambda>(b, h, s). length h)")
  show "wf (measure (\<lambda>(b, h, s). length h))" by simp
next
  fix b :: build and horn_constraint_pointers :: "horn_constraint list" and st :: reducer_state
    and r hcs' p st' flag
  assume "scan_all b horn_constraint_pointers st = Inr r" "(hcs', p) = r" "(st', flag) = p"
    "\<not> flag"
  then have "length hcs' < length horn_constraint_pointers"
    using scan_all_length[of b horn_constraint_pointers st hcs' st' flag] by auto
  then show "((b, hcs', st'), b, horn_constraint_pointers, st)
      \<in> measure (\<lambda>(b, h, s). length h)"
    by simp
qed

definition reduce_predicates_all :: "build \<Rightarrow> datapoint list \<Rightarrow> horn_constraint list
    \<Rightarrow> conjunction list \<Rightarrow> conjunction list \<Rightarrow> error + conjunction list" where
  "reduce_predicates_all b datapoints horn_constraints X R =
     (if X = [] then Inl (RuntimeError ''X must not be empty'')
      else if length X \<noteq> length R then Inl (RuntimeError ''R and X must be of same size'')
      else
        (case negative_all b X datapoints (prepare_sets X R (replicate (length X) [])) of
           Inl e \<Rightarrow> Inl e
         | Inr st \<Rightarrow>
             (case horn_loop_all b horn_constraints st of
                Inl e \<Rightarrow> Inl e
              | Inr (R', X_minus_R') \<Rightarrow>
                  if assert_fails b (is_consistent R' datapoints horn_constraints)
                  then Inl AssertionFailed
                  else Inr R')))"

subsection \<open>\<^verbatim>\<open>sorcar::reduce_predicates_first\<close>\<close>

text \<open>
  The walk that moves only the first predicate which the data point falsifies; the third
  component tells whether one was found.
\<close>

fun move_first_zero :: "datapoint \<Rightarrow> conjunction \<Rightarrow> conjunction
    \<Rightarrow> conjunction \<times> conjunction \<times> bool" where
  "move_first_zero dp [] r = (r, [], False)"
| "move_first_zero dp (p # ps) r =
     (if int_data dp ! p = 0 then (set_insert p r, ps, True)
      else (case move_first_zero dp ps r of (r', ps', added) \<Rightarrow> (r', p # ps', added)))"

definition add_first :: "datapoint \<Rightarrow> reducer_state \<Rightarrow> reducer_state \<times> bool" where
  "add_first dp = (\<lambda>(R, X_minus_R).
     let k = loc_id dp in
     case move_first_zero dp (X_minus_R ! k) (R ! k) of
       (r', xmr', added) \<Rightarrow> ((R[k := r'], X_minus_R[k := xmr']), added))"

fun negative_first :: "build \<Rightarrow> datapoint list \<Rightarrow> reducer_state \<Rightarrow> error + reducer_state" where
  "negative_first b [] st = Inr st"
| "negative_first b (dp # dps) st =
     (let k = loc_id dp in
      if assert_fails b (k < length (fst st)) then Inl AssertionFailed
      else if is_classified dp \<and> \<not> classification dp \<and> satisfies dp (fst st ! k) then
        (let size_before = length (fst st ! k); st' = fst (add_first dp st) in
         if assert_fails b (size_before < length (fst st' ! k)) then Inl AssertionFailed
         else negative_first b dps st')
      else negative_first b dps st)"

text \<open>
  The loop over the premises of a constraint that is not satisfied: it stops at the first
  premise for which a predicate was added.
\<close>

fun add_first_premise :: "datapoint list \<Rightarrow> reducer_state \<Rightarrow> reducer_state \<times> bool" where
  "add_first_premise [] st = (st, False)"
| "add_first_premise (dp # dps) st =
     (case add_first dp st of
        (st', added) \<Rightarrow> if added then (st', True) else add_first_premise dps st')"

fun scan_first :: "build \<Rightarrow> horn_constraint list \<Rightarrow> reducer_state
    \<Rightarrow> error + (horn_constraint list \<times> reducer_state \<times> bool)" where
  "scan_first b [] st = Inr ([], st, True)"
| "scan_first b (hc # hcs) st =
     (case lhs_satisfied_asserting b (fst st) (hc_premises hc) of
        Inl e \<Rightarrow> Inl e
      | Inr lhs \<Rightarrow>
          if \<not> lhs then scan_first b hcs st
          else if conclusion_satisfied (fst st) hc then
            (case scan_first b hcs st of
               Inl e \<Rightarrow> Inl e
             | Inr (hcs', st', flag) \<Rightarrow> Inr (hc # hcs', st', flag))
          else
            (case add_first_premise (hc_premises hc) st of
               (st1, added) \<Rightarrow>
                 if assert_fails b added then Inl AssertionFailed
                 else
                   (case scan_first b hcs st1 of
                      Inl e \<Rightarrow> Inl e
                    | Inr (hcs', st', flag) \<Rightarrow> Inr (hcs', st', False))))"

lemma scan_first_length:
  "scan_first b hcs st = Inr (hcs', st', flag) \<Longrightarrow>
     length hcs' \<le> length hcs \<and> (\<not> flag \<longrightarrow> length hcs' < length hcs)"
proof (induction hcs arbitrary: st hcs' st' flag)
  case Nil
  then show ?case by simp
next
  case (Cons hc hcs)
  from Cons.prems obtain lhs where l: "lhs_satisfied_asserting b (fst st) (hc_premises hc) = Inr lhs"
    by (auto split: sum.splits)
  show ?case
  proof (cases lhs)
    case False
    with Cons.prems l have "scan_first b hcs st = Inr (hcs', st', flag)" by simp
    from Cons.IH[OF this] show ?thesis by simp
  next
    case True
    show ?thesis
    proof (cases "conclusion_satisfied (fst st) hc")
      case sat: True
      with Cons.prems l True obtain hcs1 where s: "scan_first b hcs st = Inr (hcs1, st', flag)"
        and h: "hcs' = hc # hcs1"
        by (auto split: sum.splits prod.splits)
      from Cons.IH[OF s] h show ?thesis by simp
    next
      case unsat: False
      with Cons.prems l True obtain st1 flag1 where
        s: "scan_first b hcs st1 = Inr (hcs', st', flag1)"
        by (auto split: sum.splits prod.splits if_splits)
      from Cons.IH[OF s] show ?thesis by simp
    qed
  qed
qed

function horn_loop_first :: "build \<Rightarrow> horn_constraint list \<Rightarrow> reducer_state
    \<Rightarrow> error + reducer_state" where
  "horn_loop_first b horn_constraint_pointers st =
     (case scan_first b horn_constraint_pointers st of
        Inl e \<Rightarrow> Inl e
      | Inr (hcs', st', added_relevant_predicate) \<Rightarrow>
          if \<not> added_relevant_predicate then horn_loop_first b hcs' st' else Inr st')"
  by pat_completeness auto
termination
proof (relation "measure (\<lambda>(b, h, s). length h)")
  show "wf (measure (\<lambda>(b, h, s). length h))" by simp
next
  fix b :: build and horn_constraint_pointers :: "horn_constraint list" and st :: reducer_state
    and r hcs' p st' flag
  assume "scan_first b horn_constraint_pointers st = Inr r" "(hcs', p) = r" "(st', flag) = p"
    "\<not> flag"
  then have "length hcs' < length horn_constraint_pointers"
    using scan_first_length[of b horn_constraint_pointers st hcs' st' flag] by auto
  then show "((b, hcs', st'), b, horn_constraint_pointers, st)
      \<in> measure (\<lambda>(b, h, s). length h)"
    by simp
qed

definition reduce_predicates_first :: "build \<Rightarrow> datapoint list \<Rightarrow> horn_constraint list
    \<Rightarrow> conjunction list \<Rightarrow> conjunction list \<Rightarrow> error + conjunction list" where
  "reduce_predicates_first b datapoints horn_constraints X R =
     (if X = [] then Inl (RuntimeError ''X must not be empty'')
      else if length X \<noteq> length R then Inl (RuntimeError ''R and X must be of same size'')
      else
        (case negative_first b datapoints (prepare_sets X R (replicate (length X) [])) of
           Inl e \<Rightarrow> Inl e
         | Inr st \<Rightarrow>
             (case horn_loop_first b horn_constraints st of
                Inl e \<Rightarrow> Inl e
              | Inr (R', X_minus_R') \<Rightarrow>
                  if assert_fails b (is_consistent R' datapoints horn_constraints)
                  then Inl AssertionFailed
                  else Inr R')))"

subsection \<open>\<^verbatim>\<open>sorcar::reduce_predicates_greedy\<close>\<close>

text \<open>
  The greedy reducer keeps, for every location, a \<^verbatim>\<open>std::map\<close> from a predicate of
  \<open>X_minus_R\<close> to the pair of the set of negative data points and the set of Horn
  constraints that adding the predicate would repair. Both sets hold pointers into the
  vectors \<^verbatim>\<open>datapoints\<close> and \<^verbatim>\<open>horn_constraints\<close>; a pointer is modelled by the index of the
  element together with the element, and a set of pointers by the list of its members in
  increasing order of the index (the order of the addresses). A map is the list of its
  entries in increasing order of the key.
\<close>

type_synonym 'a pointer_set = "(nat \<times> 'a) list"

type_synonym violators = "datapoint pointer_set \<times> horn_constraint pointer_set"

type_synonym predicate_map = "(nat \<times> violators) list"

fun pointer_insert :: "nat \<times> 'a \<Rightarrow> 'a pointer_set \<Rightarrow> 'a pointer_set" where
  "pointer_insert x [] = [x]"
| "pointer_insert x (y # ys) =
     (if fst x < fst y then x # y # ys
      else if fst x = fst y then y # ys
      else y # pointer_insert x ys)"

definition pointer_erase :: "nat \<Rightarrow> 'a pointer_set \<Rightarrow> 'a pointer_set" where
  "pointer_erase n s = filter (\<lambda>y. fst y \<noteq> n) s"

text \<open>\<^verbatim>\<open>m[p]\<close> followed by a change of the entry: the entry is created empty when missing.\<close>

fun map_modify :: "nat \<Rightarrow> (violators \<Rightarrow> violators) \<Rightarrow> predicate_map \<Rightarrow> predicate_map" where
  "map_modify p f [] = [(p, f ([], []))]"
| "map_modify p f (e # m) =
     (if p < fst e then (p, f ([], [])) # e # m
      else if p = fst e then (p, f (snd e)) # m
      else e # map_modify p f m)"

text \<open>\<^verbatim>\<open>m.at(p)\<close> followed by a change of the entry: \<^verbatim>\<open>std::out_of_range\<close> when missing.\<close>

fun map_modify_at :: "nat \<Rightarrow> (violators \<Rightarrow> violators) \<Rightarrow> predicate_map \<Rightarrow> predicate_map option" where
  "map_modify_at p f [] = None"
| "map_modify_at p f (e # m) =
     (if p = fst e then Some ((p, f (snd e)) # m)
      else (case map_modify_at p f m of None \<Rightarrow> None | Some m' \<Rightarrow> Some (e # m')))"

definition map_erase :: "nat \<Rightarrow> predicate_map \<Rightarrow> predicate_map" where
  "map_erase p m = filter (\<lambda>e. fst e \<noteq> p) m"

text \<open>
  \<^verbatim>\<open>for (const auto p : X_minus_R[id]) if (dp._int_data[p] == 0) predicates[id][p]...\<close>: the
  change \<open>f\<close> is applied to the entry of every predicate of \<open>X_minus_R[id]\<close> that the data
  point falsifies.
\<close>

fun record_violator :: "datapoint \<Rightarrow> conjunction \<Rightarrow> (violators \<Rightarrow> violators)
    \<Rightarrow> predicate_map \<Rightarrow> predicate_map" where
  "record_violator dp [] f m = m"
| "record_violator dp (p # ps) f m =
     (if int_data dp ! p = 0 then record_violator dp ps f (map_modify p f m)
      else record_violator dp ps f m)"

fun negative_greedy :: "build \<Rightarrow> conjunction list \<Rightarrow> conjunction list
    \<Rightarrow> (nat \<times> datapoint) list \<Rightarrow> predicate_map list \<Rightarrow> error + predicate_map list" where
  "negative_greedy b R X_minus_R [] predicates = Inr predicates"
| "negative_greedy b R X_minus_R (ndp # dps) predicates =
     (let dp = snd ndp; k = loc_id dp in
      if assert_fails b (k < length R) then Inl AssertionFailed
      else if is_classified dp \<and> \<not> classification dp \<and> satisfies dp (R ! k) then
        negative_greedy b R X_minus_R dps
          (predicates[k := record_violator dp (X_minus_R ! k)
             (\<lambda>v. (pointer_insert ndp (fst v), snd v)) (predicates ! k)])
      else negative_greedy b R X_minus_R dps predicates)"

text \<open>
  The loop over the premises of a Horn constraint that is not satisfied: the constraint is
  recorded under every predicate that one of its premises falsifies.
\<close>

fun record_horn :: "nat \<times> horn_constraint \<Rightarrow> conjunction list \<Rightarrow> datapoint list
    \<Rightarrow> predicate_map list \<Rightarrow> predicate_map list" where
  "record_horn nhc X_minus_R [] predicates = predicates"
| "record_horn nhc X_minus_R (dp # dps) predicates =
     (let k = loc_id dp in
      record_horn nhc X_minus_R dps
        (predicates[k := record_violator dp (X_minus_R ! k)
           (\<lambda>v. (fst v, pointer_insert nhc (snd v))) (predicates ! k)]))"

fun collect_horn :: "build \<Rightarrow> conjunction list \<Rightarrow> conjunction list
    \<Rightarrow> (nat \<times> horn_constraint) list \<Rightarrow> predicate_map list \<Rightarrow> bool
    \<Rightarrow> error + (predicate_map list \<times> bool)" where
  "collect_horn b R X_minus_R [] predicates done = Inr (predicates, done)"
| "collect_horn b R X_minus_R (nhc # hcs) predicates done =
     (case lhs_satisfied_asserting b R (hc_premises (snd nhc)) of
        Inl e \<Rightarrow> Inl e
      | Inr lhs \<Rightarrow>
          if lhs \<and> \<not> conclusion_satisfied R (snd nhc) then
            collect_horn b R X_minus_R hcs
              (record_horn nhc X_minus_R (hc_premises (snd nhc)) predicates) False
          else collect_horn b R X_minus_R hcs predicates done)"

text \<open>
  The search for the predicate that repairs most: the entries are visited location by
  location and, within a location, in increasing order of the predicate; an entry replaces
  the best one so far only when its value is strictly greater, the start value being 0.
\<close>

definition entry_value :: "nat \<times> violators \<Rightarrow> nat" where
  "entry_value e = length (fst (snd e)) + length (snd (snd e))"

fun best_in_map :: "nat \<Rightarrow> predicate_map \<Rightarrow> (nat \<times> nat \<times> nat) option
    \<Rightarrow> (nat \<times> nat \<times> nat) option" where
  "best_in_map i [] best = best"
| "best_in_map i (e # m) best =
     (if entry_value e > (case best of None \<Rightarrow> 0 | Some b \<Rightarrow> fst b)
      then best_in_map i m (Some (entry_value e, i, fst e))
      else best_in_map i m best)"

fun find_best :: "nat \<Rightarrow> predicate_map list \<Rightarrow> (nat \<times> nat \<times> nat) option
    \<Rightarrow> (nat \<times> nat \<times> nat) option" where
  "find_best i [] best = best"
| "find_best i (m # ms) best = find_best (Suc i) ms (best_in_map i m best)"

text \<open>
  Adding the best predicate starts with two range-based \<^verbatim>\<open>for\<close> loops, the first over the set
  \<^verbatim>\<open>predicates.at(best_id).at(best_p).first\<close> of pointers to data points and the second over
  the set \<^verbatim>\<open>.second\<close> of pointers to Horn constraints of the same entry. The body takes the
  pointer at hand out of the entry of every predicate of \<open>X_minus_R[id]\<close> that a data point
  falsifies, with \<^verbatim>\<open>predicates.at(id).at(p)\<close>, which throws \<^verbatim>\<open>std::out_of_range\<close> when there is
  no such entry. When \<open>id\<close> is \<open>best_id\<close> and \<open>p\<close> is \<open>best_p\<close>, the set it erases from is the
  very set the loop runs over and the element it erases is the one the loop stands on: the
  reference \<^verbatim>\<open>dp\<close> (or \<^verbatim>\<open>hc\<close>) and the iterator of the loop are invalid from then on, and the
  next step, which reads the one or increments the other, is undefined behaviour. The
  argument \<open>cur\<close> of the walk is \<open>best_p\<close> when the map at hand is the one of \<open>best_id\<close>.
\<close>

fun forget_violator :: "datapoint \<Rightarrow> conjunction \<Rightarrow> (violators \<Rightarrow> violators)
    \<Rightarrow> nat option \<Rightarrow> predicate_map \<Rightarrow> error + predicate_map" where
  "forget_violator dp [] f cur m = Inr m"
| "forget_violator dp (p # ps) f cur m =
     (if int_data dp ! p = 0 then
        (case map_modify_at p f m of
           None \<Rightarrow> Inl OutOfRange
         | Some m' \<Rightarrow>
             if cur = Some p then Inl InvalidIterator
             else forget_violator dp ps f cur m')
      else forget_violator dp ps f cur m)"

text \<open>
  The read \<^verbatim>\<open>X_minus_R[id]\<close> comes first and is unchecked; \<^verbatim>\<open>predicates.at(id)\<close> is evaluated
  for the first predicate that the data point falsifies.
\<close>

definition forget_at :: "datapoint \<Rightarrow> conjunction list \<Rightarrow> (violators \<Rightarrow> violators)
    \<Rightarrow> nat \<Rightarrow> nat \<Rightarrow> predicate_map list \<Rightarrow> error + predicate_map list" where
  "forget_at dp X_minus_R f best_id best_p predicates =
     (let k = loc_id dp in
      if \<not> k < length X_minus_R then Inl OutOfBounds
      else if \<not> k < length predicates then
        (if list_ex (\<lambda>p. int_data dp ! p = 0) (X_minus_R ! k) then Inl OutOfRange
         else Inr predicates)
      else
        (case forget_violator dp (X_minus_R ! k) f (if k = best_id then Some best_p else None)
                (predicates ! k) of
           Inl e \<Rightarrow> Inl e
         | Inr m \<Rightarrow> Inr (predicates[k := m])))"

text \<open>
  The first loop. A step that did not erase the element it stands on leaves the set that the
  loop runs over as it was, since the body erases no other pointer than this one, so the
  loop goes on with the members the set had at the start.
\<close>

fun forget_datapoints :: "(nat \<times> datapoint) list \<Rightarrow> conjunction list \<Rightarrow> nat \<Rightarrow> nat
    \<Rightarrow> predicate_map list \<Rightarrow> error + predicate_map list" where
  "forget_datapoints [] X_minus_R best_id best_p predicates = Inr predicates"
| "forget_datapoints (ndp # dps) X_minus_R best_id best_p predicates =
     (case forget_at (snd ndp) X_minus_R (\<lambda>v. (pointer_erase (fst ndp) (fst v), snd v))
             best_id best_p predicates of
        Inl e \<Rightarrow> Inl e
      | Inr predicates' \<Rightarrow> forget_datapoints dps X_minus_R best_id best_p predicates')"

text \<open>The second loop, with its inner loop over the premises of the Horn constraint.\<close>

fun forget_premises :: "nat \<Rightarrow> datapoint list \<Rightarrow> conjunction list \<Rightarrow> nat \<Rightarrow> nat
    \<Rightarrow> predicate_map list \<Rightarrow> error + predicate_map list" where
  "forget_premises n [] X_minus_R best_id best_p predicates = Inr predicates"
| "forget_premises n (dp # dps) X_minus_R best_id best_p predicates =
     (case forget_at dp X_minus_R (\<lambda>v. (fst v, pointer_erase n (snd v)))
             best_id best_p predicates of
        Inl e \<Rightarrow> Inl e
      | Inr predicates' \<Rightarrow> forget_premises n dps X_minus_R best_id best_p predicates')"

fun forget_horns :: "(nat \<times> horn_constraint) list \<Rightarrow> conjunction list \<Rightarrow> nat \<Rightarrow> nat
    \<Rightarrow> predicate_map list \<Rightarrow> error + predicate_map list" where
  "forget_horns [] X_minus_R best_id best_p predicates = Inr predicates"
| "forget_horns (nhc # hcs) X_minus_R best_id best_p predicates =
     (case forget_premises (fst nhc) (hc_premises (snd nhc)) X_minus_R best_id best_p
             predicates of
        Inl e \<Rightarrow> Inl e
      | Inr predicates' \<Rightarrow> forget_horns hcs X_minus_R best_id best_p predicates')"

text \<open>
  Adding the best predicate: the two loops, then \<^verbatim>\<open>predicates.at(best_id).erase(best_p)\<close>.
\<close>

definition pick :: "nat \<Rightarrow> nat \<Rightarrow> conjunction list \<Rightarrow> predicate_map list
    \<Rightarrow> error + predicate_map list" where
  "pick best_id best_p X_minus_R predicates =
     (if \<not> best_id < length predicates then Inl OutOfRange
      else
        (case map_of (predicates ! best_id) best_p of
           None \<Rightarrow> Inl OutOfRange
         | Some v \<Rightarrow>
             (case forget_datapoints (fst v) X_minus_R best_id best_p predicates of
                Inl e \<Rightarrow> Inl e
              | Inr predicates1 \<Rightarrow>
                  (case map_of (predicates1 ! best_id) best_p of
                     None \<Rightarrow> Inl OutOfRange
                   | Some v1 \<Rightarrow>
                       (case forget_horns (snd v1) X_minus_R best_id best_p predicates1 of
                          Inl e \<Rightarrow> Inl e
                        | Inr predicates2 \<Rightarrow>
                            Inr (predicates2[best_id := map_erase best_p (predicates2 ! best_id)]))))))"

lemma map_modify_at_keys: "map_modify_at p f m = Some m' \<Longrightarrow> map fst m' = map fst m"
  by (induction m arbitrary: m') (auto split: if_splits option.splits)

lemma forget_violator_keys:
  "forget_violator dp ps f cur m = Inr m' \<Longrightarrow> map fst m' = map fst m"
proof (induction ps arbitrary: m)
  case Nil
  then show ?case by simp
next
  case (Cons p ps)
  show ?case
  proof (cases "int_data dp ! p = 0")
    case True
    with Cons.prems obtain m1 where m1: "map_modify_at p f m = Some m1"
      and r: "forget_violator dp ps f cur m1 = Inr m'"
      by (auto split: option.splits if_splits)
    from Cons.IH[OF r] map_modify_at_keys[OF m1] show ?thesis by simp
  next
    case False
    with Cons.prems Cons.IH show ?thesis by simp
  qed
qed

lemma forget_at_keys:
  "forget_at dp X_minus_R f best_id best_p predicates = Inr predicates' \<Longrightarrow>
     map (map fst) predicates' = map (map fst) predicates"
proof -
  assume a: "forget_at dp X_minus_R f best_id best_p predicates = Inr predicates'"
  show ?thesis
  proof (cases "loc_id dp < length predicates")
    case False
    with a have "predicates' = predicates"
      by (simp add: forget_at_def Let_def split: if_splits)
    then show ?thesis by simp
  next
    case k: True
    with a obtain m where
      m: "forget_violator dp (X_minus_R ! loc_id dp) f
            (if loc_id dp = best_id then Some best_p else None) (predicates ! loc_id dp) = Inr m"
      and p: "predicates' = predicates[loc_id dp := m]"
      by (simp add: forget_at_def Let_def split: sum.splits if_splits)
    from forget_violator_keys[OF m] have "map fst m = map fst (predicates ! loc_id dp)" .
    with p k show ?thesis by (simp add: map_update list_update_same_conv)
  qed
qed

lemma forget_datapoints_keys:
  "forget_datapoints dps X_minus_R best_id best_p predicates = Inr predicates' \<Longrightarrow>
     map (map fst) predicates' = map (map fst) predicates"
proof (induction dps arbitrary: predicates)
  case Nil
  then show ?case by simp
next
  case (Cons ndp dps)
  from Cons.prems obtain p1 where
    a: "forget_at (snd ndp) X_minus_R (\<lambda>v. (pointer_erase (fst ndp) (fst v), snd v))
          best_id best_p predicates = Inr p1"
    and r: "forget_datapoints dps X_minus_R best_id best_p p1 = Inr predicates'"
    by (auto split: sum.splits)
  from Cons.IH[OF r] forget_at_keys[OF a] show ?case by simp
qed

lemma forget_premises_keys:
  "forget_premises n dps X_minus_R best_id best_p predicates = Inr predicates' \<Longrightarrow>
     map (map fst) predicates' = map (map fst) predicates"
proof (induction dps arbitrary: predicates)
  case Nil
  then show ?case by simp
next
  case (Cons dp dps)
  from Cons.prems obtain p1 where
    a: "forget_at dp X_minus_R (\<lambda>v. (fst v, pointer_erase n (snd v)))
          best_id best_p predicates = Inr p1"
    and r: "forget_premises n dps X_minus_R best_id best_p p1 = Inr predicates'"
    by (auto split: sum.splits)
  from Cons.IH[OF r] forget_at_keys[OF a] show ?case by simp
qed

lemma forget_horns_keys:
  "forget_horns hcs X_minus_R best_id best_p predicates = Inr predicates' \<Longrightarrow>
     map (map fst) predicates' = map (map fst) predicates"
proof (induction hcs arbitrary: predicates)
  case Nil
  then show ?case by simp
next
  case (Cons nhc hcs)
  from Cons.prems obtain p1 where
    a: "forget_premises (fst nhc) (hc_premises (snd nhc)) X_minus_R best_id best_p predicates
          = Inr p1"
    and r: "forget_horns hcs X_minus_R best_id best_p p1 = Inr predicates'"
    by (auto split: sum.splits)
  from Cons.IH[OF r] forget_premises_keys[OF a] show ?case by simp
qed

definition entries :: "predicate_map list \<Rightarrow> nat" where
  "entries predicates = sum_list (map length predicates)"

lemma entries_keys: "entries predicates = sum_list (map length (map (map fst) predicates))"
  by (simp add: entries_def comp_def)

lemma entries_update:
  "k < length predicates \<Longrightarrow>
     entries (predicates[k := m]) + length (predicates ! k) = entries predicates + length m"
proof (induction predicates arbitrary: k)
  case Nil
  then show ?case by simp
next
  case (Cons a predicates)
  show ?case
  proof (cases k)
    case 0
    then show ?thesis by (simp add: entries_def)
  next
    case (Suc j)
    with Cons.prems have "j < length predicates" by simp
    from Cons.IH[OF this] Suc show ?thesis by (simp add: entries_def)
  qed
qed

lemma pick_entries:
  assumes "pick best_id best_p X_minus_R predicates = Inr predicates'"
  shows "entries predicates' < entries predicates"
proof -
  from assms have k: "best_id < length predicates" by (simp add: pick_def split: if_splits)
  with assms obtain v p1 v1 p2 where
    a: "forget_datapoints (fst v) X_minus_R best_id best_p predicates = Inr p1"
    and b: "map_of (p1 ! best_id) best_p = Some v1"
    and c: "forget_horns (snd v1) X_minus_R best_id best_p p1 = Inr p2"
    and d: "predicates' = p2[best_id := map_erase best_p (p2 ! best_id)]"
    by (auto simp: pick_def split: option.splits sum.splits)
  have k1: "map (map fst) p1 = map (map fst) predicates" using forget_datapoints_keys[OF a] .
  have k2: "map (map fst) p2 = map (map fst) p1" using forget_horns_keys[OF c] .
  have len: "length p2 = length predicates" "length p1 = length predicates"
    using k1 k2 by (metis length_map)+
  have "map fst (p2 ! best_id) = map fst (p1 ! best_id)"
    using k2 k len by (metis nth_map)
  moreover from b have "best_p \<in> fst ` set (p1 ! best_id)" by (metis map_of_eq_None_iff option.distinct(1))
  ultimately have "best_p \<in> set (map fst (p2 ! best_id))" by simp
  then obtain e where "e \<in> set (p2 ! best_id)" "\<not> fst e \<noteq> best_p" by auto
  then have "length (map_erase best_p (p2 ! best_id)) < length (p2 ! best_id)"
    unfolding map_erase_def by (rule length_filter_less)
  moreover have "entries predicates' + length (p2 ! best_id) =
      entries p2 + length (map_erase best_p (p2 ! best_id))"
    using entries_update[of best_id p2] k len d by simp
  moreover have "entries p2 = entries predicates" using k1 k2 by (simp add: entries_keys)
  ultimately show ?thesis by simp
qed

text \<open>The inner \<^verbatim>\<open>do ... while (found_unprocessed_predicate)\<close> loop.\<close>

function pick_loop :: "conjunction list \<Rightarrow> predicate_map list \<Rightarrow> (nat \<times> nat) list \<Rightarrow> bool
    \<Rightarrow> error + (predicate_map list \<times> (nat \<times> nat) list \<times> bool)" where
  "pick_loop X_minus_R predicates new_relevant_predicates done =
     (case find_best 0 predicates None of
        None \<Rightarrow> Inr (predicates, new_relevant_predicates, done)
      | Some best \<Rightarrow>
          (case pick (fst (snd best)) (snd (snd best)) X_minus_R predicates of
             Inl e \<Rightarrow> Inl e
           | Inr predicates' \<Rightarrow>
               pick_loop X_minus_R predicates'
                 (new_relevant_predicates @ [(fst (snd best), snd (snd best))]) False))"
  by pat_completeness auto
termination
proof (relation "measure (\<lambda>(x, p, n, d). entries p)")
  show "wf (measure (\<lambda>(x, p, n, d). entries p))" by simp
next
  fix X_minus_R :: "conjunction list" and predicates :: "predicate_map list"
    and new_relevant_predicates :: "(nat \<times> nat) list" and flag :: bool
    and best predicates'
  assume "pick (fst (snd best)) (snd (snd best)) X_minus_R predicates = Inr predicates'"
  from pick_entries[OF this]
  show "((X_minus_R, predicates',
          new_relevant_predicates @ [(fst (snd best), snd (snd best))], False),
         X_minus_R, predicates, new_relevant_predicates, flag)
        \<in> measure (\<lambda>(x, p, n, d). entries p)"
    by simp
qed

text \<open>The debug check after the inner loop: every entry left has two empty sets.\<close>

definition debug_check :: "predicate_map list \<Rightarrow> bool" where
  "debug_check predicates =
     list_all (list_all (\<lambda>e. fst (snd e) = [] \<and> snd (snd e) = [])) predicates"

fun add_relevant :: "(nat \<times> nat) list \<Rightarrow> reducer_state \<Rightarrow> reducer_state" where
  "add_relevant [] st = st"
| "add_relevant (pr # prs) st =
     add_relevant prs
       ((fst st)[fst pr := set_insert (snd pr) (fst st ! fst pr)],
        (snd st)[fst pr := filter (\<lambda>q. q \<noteq> snd pr) (snd st ! fst pr)])"

text \<open>
  One turn of the outer \<^verbatim>\<open>do ... while (!done)\<close> loop; the list of pointers to the Horn
  constraints is never shortened by this reducer. The result is the new state and \<open>done\<close>.
\<close>

type_synonym greedy_state = "reducer_state \<times> predicate_map list"

definition greedy_round :: "build \<Rightarrow> horn_constraint list \<Rightarrow> greedy_state
    \<Rightarrow> error + (greedy_state \<times> bool)" where
  "greedy_round b horn_constraints gs =
     (case collect_horn b (fst (fst gs)) (snd (fst gs)) (enumerate 0 horn_constraints) (snd gs)
             True of
        Inl e \<Rightarrow> Inl e
      | Inr (predicates1, done1) \<Rightarrow>
          (case pick_loop (snd (fst gs)) predicates1 [] done1 of
             Inl e \<Rightarrow> Inl e
           | Inr (predicates2, new_relevant_predicates, done2) \<Rightarrow>
               if assert_fails b (debug_check predicates2) then Inl AssertionFailed
               else Inr ((add_relevant new_relevant_predicates (fst gs), predicates2), done2)))"

text \<open>
  The outer loop goes on as long as a turn found a constraint that is not satisfied or
  added a predicate. Nothing bounds the number of turns when a constraint is not satisfied
  and no predicate of \<open>X_minus_R\<close> repairs it, so the loop is a partial function: not
  returning is \<open>None\<close>.
\<close>

partial_function (option) greedy_loop :: "build \<Rightarrow> horn_constraint list \<Rightarrow> greedy_state
    \<Rightarrow> (error + greedy_state) option" where
  "greedy_loop b horn_constraints gs =
     (case greedy_round b horn_constraints gs of
        Inl e \<Rightarrow> Some (Inl e)
      | Inr r \<Rightarrow> if snd r then Some (Inr (fst r)) else greedy_loop b horn_constraints (fst r))"

definition reduce_predicates_greedy :: "build \<Rightarrow> datapoint list \<Rightarrow> horn_constraint list
    \<Rightarrow> conjunction list \<Rightarrow> conjunction list \<Rightarrow> (error + conjunction list) option" where
  "reduce_predicates_greedy b datapoints horn_constraints X R =
     (if X = [] then Some (Inl (RuntimeError ''X must not be empty''))
      else if length X \<noteq> length R then Some (Inl (RuntimeError ''R and X must be of same size''))
      else
        (let st = prepare_sets X R (replicate (length X) []) in
         case negative_greedy b (fst st) (snd st) (enumerate 0 datapoints)
                (replicate (length X) []) of
           Inl e \<Rightarrow> Some (Inl e)
         | Inr predicates \<Rightarrow>
             (case greedy_loop b horn_constraints (st, predicates) of
                None \<Rightarrow> None
              | Some (Inl e) \<Rightarrow> Some (Inl e)
              | Some (Inr gs) \<Rightarrow>
                  if assert_fails b (is_consistent (fst (fst gs)) datapoints horn_constraints)
                  then Some (Inl AssertionFailed)
                  else Some (Inr (fst (fst gs))))))"

subsection \<open>\<^verbatim>\<open>sorcar::reduce_predicates_minimal\<close>\<close>

text \<open>
  The expressions handed to the solver: Boolean constants \<^verbatim>\<open>ctx.constant(ctx.int_symbol(n),
  ctx.bool_sort())\<close>, \<^verbatim>\<open>||\<close>, \<^verbatim>\<open>&&\<close> and \<^verbatim>\<open>!\<close>. The solver gets the two formulas and the size
  constraint \<^verbatim>\<open>ite(v0,1,0) + ... <= k\<close> over all the constants.
\<close>

datatype expr = BoolVal bool | Const nat | Or_expr expr expr | And_expr expr expr | Not_expr expr

datatype assertion = Formula expr | AtMost "expr list" nat

text \<open>
  The solver is not part of the program. \<open>z3_check\<close> stands for \<^verbatim>\<open>solver.check()\<close> on the
  assertions added: \<open>Inr (Some model)\<close> is the answer \<^verbatim>\<open>sat\<close> with the model of
  \<^verbatim>\<open>solver.get_model()\<close>, \<open>Inr None\<close> any other answer, \<open>Inl e\<close> an exception of the solver. A
  model gives a constant the value \<open>Some True\<close> (\<^verbatim>\<open>Z3_L_TRUE\<close>), \<open>Some False\<close> or \<open>None\<close>
  (undefined).
\<close>

type_synonym z3_model = "nat \<Rightarrow> bool option"

type_synonym z3_solver = "assertion list \<Rightarrow> error + z3_model option"

text \<open>
  What the assertions say. The program reads a model through
  \<^verbatim>\<open>model.eval(c).bool_value() == Z3_L_TRUE\<close>, which makes a constant true when the model
  gives it the value true and false otherwise; \<open>model_holds\<close> reads an assertion in this
  way. A solver is sound when the model of every answer \<^verbatim>\<open>sat\<close> satisfies the assertions it
  was given; this is what the program relies on, it is not a property of the program.
\<close>

fun eval_expr :: "(nat \<Rightarrow> bool) \<Rightarrow> expr \<Rightarrow> bool" where
  "eval_expr t (BoolVal c) = c"
| "eval_expr t (Const v) = t v"
| "eval_expr t (Or_expr e1 e2) = (eval_expr t e1 \<or> eval_expr t e2)"
| "eval_expr t (And_expr e1 e2) = (eval_expr t e1 \<and> eval_expr t e2)"
| "eval_expr t (Not_expr e) = (\<not> eval_expr t e)"

definition model_true :: "z3_model \<Rightarrow> nat \<Rightarrow> bool" where
  "model_true model v \<longleftrightarrow> model v = Some True"

fun model_holds :: "z3_model \<Rightarrow> assertion \<Rightarrow> bool" where
  "model_holds model (Formula e) = eval_expr (model_true model) e"
| "model_holds model (AtMost es k) = (length (filter (eval_expr (model_true model)) es) \<le> k)"

definition solver_sound :: "z3_solver \<Rightarrow> bool" where
  "solver_sound z3_check \<longleftrightarrow>
     (\<forall>assertions model. z3_check assertions = Inr (Some model)
        \<longrightarrow> list_all (model_holds model) assertions)"

fun number_vars :: "nat \<Rightarrow> conjunction \<Rightarrow> (nat \<times> nat) list \<times> nat" where
  "number_vars var_count [] = ([], var_count)"
| "number_vars var_count (p # ps) =
     (case number_vars (Suc var_count) ps of (m, n) \<Rightarrow> ((p, var_count) # m, n))"

fun build_attr2expr :: "nat \<Rightarrow> conjunction list \<Rightarrow> (nat \<times> nat) list list \<times> nat" where
  "build_attr2expr var_count [] = ([], var_count)"
| "build_attr2expr var_count (c # cs) =
     (case number_vars var_count c of
        (m, n) \<Rightarrow> (case build_attr2expr n cs of (ms, n') \<Rightarrow> (m # ms, n')))"

text \<open>The clause of a negative data point: \<^verbatim>\<open>attr2expr[id].at(p)\<close> for the predicates \<open>p\<close> of
  \<open>X_minus_R[id]\<close> that it falsifies.\<close>

fun negative_clause :: "datapoint \<Rightarrow> conjunction \<Rightarrow> (nat \<times> nat) list \<Rightarrow> expr \<Rightarrow> error + expr" where
  "negative_clause dp [] m clause = Inr clause"
| "negative_clause dp (p # ps) m clause =
     (if int_data dp ! p = 0 then
        (case map_of m p of
           None \<Rightarrow> Inl OutOfRange
         | Some v \<Rightarrow> negative_clause dp ps m (Or_expr clause (Const v)))
      else negative_clause dp ps m clause)"

fun negative_minimal :: "conjunction list \<Rightarrow> conjunction list \<Rightarrow> (nat \<times> nat) list list
    \<Rightarrow> datapoint list \<Rightarrow> expr \<Rightarrow> error + expr" where
  "negative_minimal R X_minus_R attr2expr [] neg_expr = Inr neg_expr"
| "negative_minimal R X_minus_R attr2expr (dp # dps) neg_expr =
     (let k = loc_id dp in
      if is_classified dp \<and> \<not> classification dp \<and> satisfies dp (R ! k) then
        (case negative_clause dp (X_minus_R ! k) (attr2expr ! k) (BoolVal False) of
           Inl e \<Rightarrow> Inl e
         | Inr clause \<Rightarrow> negative_minimal R X_minus_R attr2expr dps (And_expr neg_expr clause))
      else negative_minimal R X_minus_R attr2expr dps neg_expr)"

text \<open>The disjunction of the constants of the predicates that a data point falsifies.\<close>

fun falsified :: "datapoint \<Rightarrow> (nat \<times> nat) list \<Rightarrow> expr \<Rightarrow> expr" where
  "falsified dp [] clause = clause"
| "falsified dp (pv # m) clause =
     (if int_data dp ! fst pv = 0 then falsified dp m (Or_expr clause (Const (snd pv)))
      else falsified dp m clause)"

fun premises_clause :: "datapoint list \<Rightarrow> (nat \<times> nat) list list \<Rightarrow> expr \<Rightarrow> expr" where
  "premises_clause [] attr2expr clause = clause"
| "premises_clause (dp # dps) attr2expr clause =
     premises_clause dps attr2expr (falsified dp (attr2expr ! loc_id dp) clause)"

text \<open>The conjunction that keeps a satisfied conclusion satisfied.\<close>

fun keep_conclusion :: "datapoint \<Rightarrow> (nat \<times> nat) list \<Rightarrow> expr \<Rightarrow> expr" where
  "keep_conclusion c [] e = e"
| "keep_conclusion c (pv # m) e =
     (if int_data c ! fst pv = 0 then keep_conclusion c m (And_expr e (Not_expr (Const (snd pv))))
      else keep_conclusion c m e)"

fun horn_minimal :: "build \<Rightarrow> conjunction list \<Rightarrow> (nat \<times> nat) list list
    \<Rightarrow> horn_constraint list \<Rightarrow> expr \<Rightarrow> error + expr" where
  "horn_minimal b R attr2expr [] horn_expr = Inr horn_expr"
| "horn_minimal b R attr2expr (hc # hcs) horn_expr =
     (case lhs_satisfied_asserting b R (hc_premises hc) of
        Inl e \<Rightarrow> Inl e
      | Inr lhs \<Rightarrow>
          (let horn_expr1 =
                 (if lhs \<and> \<not> conclusion_satisfied R hc
                  then And_expr horn_expr (premises_clause (hc_premises hc) attr2expr (BoolVal False))
                  else horn_expr);
               horn_expr2 =
                 (if lhs \<and> conclusion_satisfied R hc
                  then And_expr horn_expr1
                         (Or_expr (premises_clause (hc_premises hc) attr2expr (BoolVal False))
                             (keep_conclusion (the (hc_conclusion hc))
                                (attr2expr ! loc_id (the (hc_conclusion hc))) (BoolVal True)))
                  else horn_expr1)
           in horn_minimal b R attr2expr hcs horn_expr2))"

text \<open>Adding to \<open>R\<close> the predicates whose constant the model makes true.\<close>

fun add_model_location :: "z3_model \<Rightarrow> (nat \<times> nat) list \<Rightarrow> conjunction \<Rightarrow> conjunction" where
  "add_model_location model [] r = r"
| "add_model_location model (pv # m) r =
     (if model (snd pv) = Some True then add_model_location model m (set_insert (fst pv) r)
      else add_model_location model m r)"

fun add_model :: "z3_model \<Rightarrow> (nat \<times> nat) list list \<Rightarrow> conjunction list \<Rightarrow> conjunction list" where
  "add_model model [] R = R"
| "add_model model (m # ms) R =
     (case R of [] \<Rightarrow> [] | r # rs \<Rightarrow> add_model_location model m r # add_model model ms rs)"

text \<open>The search for the least bound \<open>k\<close> with a model, starting from \<open>k = 1\<close>.\<close>

function solve :: "z3_solver \<Rightarrow> expr \<Rightarrow> expr \<Rightarrow> (nat \<times> nat) list list \<Rightarrow> nat \<Rightarrow> nat
    \<Rightarrow> conjunction list \<Rightarrow> error + conjunction list" where
  "solve z3_check neg_expr horn_expr attr2expr var_count k R =
     (case z3_check [Formula neg_expr, Formula horn_expr,
                     AtMost (map (\<lambda>pv. Const (snd pv)) (concat attr2expr)) k] of
        Inl e \<Rightarrow> Inl e
      | Inr (Some model) \<Rightarrow> Inr (add_model model attr2expr R)
      | Inr None \<Rightarrow>
          if k \<ge> var_count then Inl (RuntimeError ''k >= var_count'')
          else solve z3_check neg_expr horn_expr attr2expr var_count (k + 1) R)"
  by pat_completeness auto
termination
  by (relation "measure (\<lambda>(z, n, h, a, v, k, R). v - k)") auto

definition reduce_predicates_minimal :: "build \<Rightarrow> z3_solver \<Rightarrow> datapoint list
    \<Rightarrow> horn_constraint list \<Rightarrow> conjunction list \<Rightarrow> conjunction list
    \<Rightarrow> error + conjunction list" where
  "reduce_predicates_minimal b z3_check datapoints horn_constraints X R =
     (if X = [] then Inl (RuntimeError ''X must not be empty'')
      else if length X \<noteq> length R then Inl (RuntimeError ''R and X must be of same size'')
      else
        (let st = prepare_sets X R (replicate (length X) []);
             av = build_attr2expr 0 (snd st)
         in case negative_minimal (fst st) (snd st) (fst av) datapoints (BoolVal True) of
              Inl e \<Rightarrow> Inl e
            | Inr neg_expr \<Rightarrow>
                (case horn_minimal b (fst st) (fst av) horn_constraints (BoolVal True) of
                   Inl e \<Rightarrow> Inl e
                 | Inr horn_expr \<Rightarrow>
                     (case solve z3_check neg_expr horn_expr (fst av) (snd av) 1 (fst st) of
                        Inl e \<Rightarrow> Inl e
                      | Inr R' \<Rightarrow>
                          if assert_fails b (is_consistent R' datapoints horn_constraints)
                          then Inl AssertionFailed
                          else Inr R'))))"

subsection \<open>The choice of the reducer in \<^verbatim>\<open>main\<close>\<close>

datatype algorithm =
  HORNDINI | SORCAR | SORCAR_FIRST | SORCAR_GREEDY | SORCAR_MINIMAL | WINNOW | PERCEPTRON

text \<open>
  The branch of \<^verbatim>\<open>main\<close> that runs Sorcar, entered for the four Sorcar algorithms: the call
  of the reducer chosen with \<^verbatim>\<open>-a\<close>. \<open>None\<close> is a call that does not return.
\<close>

definition run_sorcar :: "build \<Rightarrow> z3_solver \<Rightarrow> algorithm \<Rightarrow> datapoint list
    \<Rightarrow> horn_constraint list \<Rightarrow> conjunction list \<Rightarrow> conjunction list
    \<Rightarrow> (error + conjunction list) option" where
  "run_sorcar b z3_check alg datapoints horn_constraints X R =
     (if alg = SORCAR_FIRST then Some (reduce_predicates_first b datapoints horn_constraints X R)
      else if alg = SORCAR_GREEDY then reduce_predicates_greedy b datapoints horn_constraints X R
      else if alg = SORCAR_MINIMAL
        then Some (reduce_predicates_minimal b z3_check datapoints horn_constraints X R)
      else Some (reduce_predicates_all b datapoints horn_constraints X R))"

subsection \<open>\<^verbatim>\<open>winnow\<close>\<close>

text \<open>
  The weights and the threshold are \<^verbatim>\<open>float\<close>s. The model takes them as real numbers: it is
  exact for the assignment of the constant 0 and for sums and differences of small integers
  and such values as occur below, where no rounding takes place. \<open>c_trunc\<close> is the conversion
  of a \<^verbatim>\<open>float\<close> to \<^verbatim>\<open>int\<close>, which drops the fraction.
\<close>

record winnow =
  weights :: "real list"
  theta :: real
  lr :: real

definition c_trunc :: "real \<Rightarrow> int" where
  "c_trunc r = (if r \<ge> 0 then \<lfloor>r\<rfloor> else \<lceil>r\<rceil>)"

text \<open>
  The heuristic of \<^verbatim>\<open>winnow::execute_algorithm\<close>:
  \<^verbatim>\<open>for (j = 0; j < w_objs[i].weights.size(); ++j) if (X[i].count(j) == 0) w_objs[i].weights[j] = 0\<close>.
\<close>

fun mask_loop :: "conjunction \<Rightarrow> nat list \<Rightarrow> real list \<Rightarrow> real list" where
  "mask_loop Xi [] ws = ws"
| "mask_loop Xi (j # js) ws =
     (if count_list Xi j = 0 then mask_loop Xi js (ws[j := 0]) else mask_loop Xi js ws)"

definition mask_location :: "conjunction \<Rightarrow> winnow \<Rightarrow> winnow" where
  "mask_location Xi w = w\<lparr>weights := mask_loop Xi [0 ..< length (weights w)] (weights w)\<rparr>"

definition mask_irrelevant :: "conjunction list \<Rightarrow> winnow list \<Rightarrow> winnow list" where
  "mask_irrelevant X w_objs =
     map (\<lambda>i. mask_location (X ! i) (w_objs ! i)) [0 ..< length w_objs]"

text \<open>
  \<^verbatim>\<open>winnow::predict\<close>: the sum runs over all the entries of the data point and reads
  \<^verbatim>\<open>weights[i]\<close> for each of them.
\<close>

fun predict_sum :: "real list \<Rightarrow> int list \<Rightarrow> nat \<Rightarrow> real \<Rightarrow> error + real" where
  "predict_sum ws [] i acc = Inr acc"
| "predict_sum ws (x # xs) i acc =
     (if \<not> i < length ws then Inl OutOfBounds
      else predict_sum ws xs (Suc i) (acc + ws ! i * of_int x))"

definition predict :: "winnow \<Rightarrow> datapoint \<Rightarrow> error + bool" where
  "predict w dp =
     (case predict_sum (weights w) (int_data dp) 0 0 of
        Inl e \<Rightarrow> Inl e
      | Inr acc \<Rightarrow> Inr (acc \<ge> theta w))"

subsection \<open>\<^verbatim>\<open>winnow::ltf2bool\<close>\<close>

text \<open>
  The decision tree that \<^verbatim>\<open>ltf2bool\<close> writes as JSON text: a leaf with its classification,
  or a node with the index of its attribute and its two children, in the order of the
  \<^verbatim>\<open>children\<close> array.
\<close>

datatype tree = Leaf bool | Node nat tree tree

text \<open>
  The loop over \<open>J\<close> with its three \<^verbatim>\<open>int\<close> variables \<^verbatim>\<open>sum\<close>, \<^verbatim>\<open>max\<close> and \<^verbatim>\<open>idx\<close>: each
  \<^verbatim>\<open>sum += weights[j]\<close> and \<^verbatim>\<open>max = weights[j]\<close> converts to \<^verbatim>\<open>int\<close>.
\<close>

fun scan_J :: "real list \<Rightarrow> nat list \<Rightarrow> int \<times> int \<times> int \<Rightarrow> int \<times> int \<times> int" where
  "scan_J ws [] s = s"
| "scan_J ws (j # J) s =
     scan_J ws J
       (c_trunc (of_int (fst s) + ws ! j),
        (if ws ! j > of_int (fst (snd s)) then c_trunc (ws ! j) else fst (snd s)),
        (if ws ! j > of_int (fst (snd s)) then int j else snd (snd s)))"

lemma scan_J_idx:
  "snd (snd (scan_J ws J s)) = snd (snd s) \<or> snd (snd (scan_J ws J s)) \<in> int ` set J"
proof (induction J arbitrary: s)
  case Nil
  then show ?case by simp
next
  case (Cons j J)
  let ?s = "(c_trunc (of_int (fst s) + ws ! j),
        (if ws ! j > of_int (fst (snd s)) then c_trunc (ws ! j) else fst (snd s)),
        (if ws ! j > of_int (fst (snd s)) then int j else snd (snd s)))"
  from Cons.IH[of ?s] show ?case by (auto split: if_splits)
qed

text \<open>
  The recursion. With \<open>idx = -1\<close> the code would read \<^verbatim>\<open>metadata.int_names()[-1]\<close>: \<open>None\<close>.
\<close>

function ltf2bool_tree :: "real list \<Rightarrow> nat list \<Rightarrow> int \<Rightarrow> tree option" where
  "ltf2bool_tree ws J th =
     (if th \<le> 0 then Some (Leaf True)
      else
        (let s = scan_J ws J (0, -1, -1); sm = fst s; mx = fst (snd s); idx = snd (snd s) in
         if sm > th then
           (if idx \<in> int ` set J then
              (case ltf2bool_tree ws (filter (\<lambda>j. int j \<noteq> idx) J) th of
                 None \<Rightarrow> None
               | Some l \<Rightarrow>
                   (case ltf2bool_tree ws (filter (\<lambda>j. int j \<noteq> idx) J) (th - mx) of
                      None \<Rightarrow> None
                    | Some r \<Rightarrow> Some (Node (nat idx) l r)))
            else None)
         else Some (Leaf False)))"
  by pat_completeness auto
termination
proof (relation "measure (\<lambda>(ws, J, th). length J)")
  show "wf (measure (\<lambda>(ws, J, th). length J))" by simp
next
  fix ws :: "real list" and J :: "nat list" and th :: int and x xa xb xc
  assume "xc = snd (snd x)" "xc \<in> int ` set J"
  then obtain j where "j \<in> set J" "\<not> int j \<noteq> xc" by auto
  then have "length (filter (\<lambda>j. int j \<noteq> xc) J) < length J" by (rule length_filter_less)
  then show "((ws, filter (\<lambda>j. int j \<noteq> xc) J, th), ws, J, th)
      \<in> measure (\<lambda>(ws, J, th). length J)" by simp
next
  fix ws :: "real list" and J :: "nat list" and th :: int and x xa xb xc x2
  assume "xc = snd (snd x)" "xc \<in> int ` set J"
  then obtain j where "j \<in> set J" "\<not> int j \<noteq> xc" by auto
  then have "length (filter (\<lambda>j. int j \<noteq> xc) J) < length J" by (rule length_filter_less)
  then show "((ws, filter (\<lambda>j. int j \<noteq> xc) J, th - xb), ws, J, th)
      \<in> measure (\<lambda>(ws, J, th). length J)" by simp
qed

text \<open>
  The call in \<^verbatim>\<open>write_ltf2bool_json\<close>: \<open>J\<close> is the set of all indices of the weight vector and
  the threshold is \<^verbatim>\<open>sum - w_objs[i].theta\<close>, converted to \<^verbatim>\<open>int\<close>, where \<open>sum\<close> is the \<^verbatim>\<open>int\<close>
  to which the weights have been added one by one.
\<close>

fun int_sum :: "real list \<Rightarrow> int \<Rightarrow> int" where
  "int_sum [] sm = sm"
| "int_sum (w # ws) sm = int_sum ws (c_trunc (of_int sm + w))"

definition ltf2bool_root :: "winnow \<Rightarrow> tree option" where
  "ltf2bool_root w =
     ltf2bool_tree (weights w) [0 ..< length (weights w)]
       (c_trunc (of_int (int_sum (weights w) 0) - theta w))"

text \<open>
  Reading the tree: at a node the first child is taken when the attribute is 0 and the
  second, built with the threshold lowered by the weight, when it is 1.
\<close>

fun accepts :: "tree \<Rightarrow> bool list \<Rightarrow> bool" where
  "accepts (Leaf b) x = b"
| "accepts (Node i l r) x = (if x ! i then accepts r x else accepts l x)"

text \<open>The linear threshold function \<open>\<Sigma> w\<^sub>i x\<^sub>i \<ge> \<theta>\<close>.\<close>

definition ltf :: "real list \<Rightarrow> real \<Rightarrow> bool list \<Rightarrow> bool" where
  "ltf ws th x \<longleftrightarrow> (\<Sum>i \<leftarrow> [0 ..< length ws]. if x ! i then ws ! i else 0) \<ge> th"

subsection \<open>Vocabulary of the statements\<close>

definition conj_le :: "conjunction list \<Rightarrow> conjunction list \<Rightarrow> bool" where
  "conj_le H X \<longleftrightarrow> length H = length X \<and> (\<forall>k < length X. set (H ! k) \<subseteq> set (X ! k))"

definition kept :: "conjunction list \<Rightarrow> horn_constraint \<Rightarrow> horn_constraint" where
  "kept X hc = hc\<lparr>hc_premises := filter (\<lambda>p. \<not> satisfies p (X ! loc_id p)) (hc_premises hc)\<rparr>"

definition horn_ok :: "conjunction list \<Rightarrow> horn_constraint \<Rightarrow> bool" where
  "horn_ok H hc \<longleftrightarrow> (lhs_satisfied H (hc_premises hc) \<longrightarrow> conclusion_satisfied H hc)"

text \<open>
  Well-formedness of the sample, the invariant of the data model: every data point has a
  location below the number \<open>L\<close> of locations and one truth value for each of the \<open>P\<close>
  atomic predicates. Outside of it the C++ code reads vectors out of range.
\<close>

definition wf_datapoint :: "nat \<Rightarrow> nat \<Rightarrow> datapoint \<Rightarrow> bool" where
  "wf_datapoint L P dp \<longleftrightarrow>
     categorical_data dp \<noteq> [] \<and> loc_id dp < L \<and> length (int_data dp) = P"

definition wf_horn_constraint :: "nat \<Rightarrow> nat \<Rightarrow> horn_constraint \<Rightarrow> bool" where
  "wf_horn_constraint L P hc \<longleftrightarrow>
     list_all (wf_datapoint L P) (hc_premises hc) \<and>
     (case hc_conclusion hc of None \<Rightarrow> True | Some c \<Rightarrow> wf_datapoint L P c)"

definition wf_sample :: "nat \<Rightarrow> nat \<Rightarrow> datapoint list \<Rightarrow> horn_constraint list \<Rightarrow> bool" where
  "wf_sample L P datapoints horn_constraints \<longleftrightarrow>
     list_all (wf_datapoint L P) datapoints \<and>
     list_all (wf_horn_constraint L P) horn_constraints"

text \<open>
  A hypothesis over the intervals: one conjunction per location, each a set of predicate
  indices of the interval of its location.
\<close>

definition within_intervals :: "(nat \<times> nat) list \<Rightarrow> conjunction list \<Rightarrow> bool" where
  "within_intervals intervals H \<longleftrightarrow>
     list_all2 (\<lambda>iv C. sorted_wrt (<) C \<and> list_all (\<lambda>c. fst iv \<le> c \<and> c \<le> snd iv) C) intervals H"

text \<open>The positive data points of a sample.\<close>

definition positive_datapoints :: "datapoint list \<Rightarrow> datapoint list" where
  "positive_datapoints datapoints = filter (\<lambda>dp. is_classified dp \<and> classification dp) datapoints"

subsection \<open>The scenarios of the specification\<close>

text \<open>A data point of location \<open>0\<close> with the given truth values, labelled or not.\<close>

definition positive_dp :: "int list \<Rightarrow> datapoint" where
  "positive_dp bits =
     \<lparr>categorical_data = [0], int_data = bits, classification = True, is_classified = True\<rparr>"

definition negative_dp :: "int list \<Rightarrow> datapoint" where
  "negative_dp bits =
     \<lparr>categorical_data = [0], int_data = bits, classification = False, is_classified = True\<rparr>"

definition unlabeled_dp :: "int list \<Rightarrow> datapoint" where
  "unlabeled_dp bits =
     \<lparr>categorical_data = [0], int_data = bits, classification = False, is_classified = False\<rparr>"

definition S1_datapoints :: "datapoint list" where
  "S1_datapoints = [positive_dp [1, 1, 0, 1], positive_dp [1, 0, 0, 1]]"

definition S4_datapoints :: "datapoint list" where
  "S4_datapoints = [positive_dp [1, 1, 0, 0]]"

definition S4_horn_constraints :: "horn_constraint list" where
  "S4_horn_constraints = [\<lparr>hc_premises = [positive_dp [1, 1, 0, 0]], hc_conclusion = None\<rparr>]"

definition S2_datapoints :: "datapoint list" where
  "S2_datapoints = [positive_dp [1, 1, 1, 1], negative_dp [1, 1, 0, 1]]"

text \<open>
  A sample on which a satisfied Horn constraint has to be looked at twice: \<open>{a} \<Rightarrow> b\<close> is
  satisfied by the empty conjunction, \<open>{c} \<Rightarrow> \<bottom>\<close> is not.
\<close>

definition C5_a :: datapoint where "C5_a = unlabeled_dp [1, 0, 1]"

definition C5_b :: datapoint where "C5_b = unlabeled_dp [0, 1, 1]"

definition C5_c :: datapoint where "C5_c = unlabeled_dp [0, 1, 0]"

definition C5_satisfied :: horn_constraint where
  "C5_satisfied = \<lparr>hc_premises = [C5_a], hc_conclusion = Some C5_b\<rparr>"

definition C5_active :: horn_constraint where
  "C5_active = \<lparr>hc_premises = [C5_c], hc_conclusion = None\<rparr>"

text \<open>A solver that never finds a model, and one whose model makes every constant false.\<close>

definition no_model :: z3_solver where
  "no_model assertions = Inr None"

definition all_false :: z3_solver where
  "all_false assertions = Inr (Some (\<lambda>v. Some False))"

text \<open>Scenario S2 with one more negative data point, which the conjunction \<open>{2}\<close> accepts.\<close>

definition S6_datapoints :: "datapoint list" where
  "S6_datapoints = [positive_dp [1, 1, 1, 1], negative_dp [1, 1, 0, 1], negative_dp [0, 1, 1, 1]]"

text \<open>
  A Winnow object for an interval of two predicates as the constructor leaves it
  (\<open>2.0 * 2 / 5\<close> for each weight), and one with the weights \<open>1.0\<close>.
\<close>

definition winnow_init2 :: winnow where
  "winnow_init2 = \<lparr>weights = [4 / 5, 4 / 5], theta = 441 / 1000, lr = 12 / 5\<rparr>"

definition winnow_ones :: winnow where
  "winnow_ones = \<lparr>weights = [1, 1], theta = 441 / 1000, lr = 12 / 5\<rparr>"

text \<open>A data point of location 1.\<close>

definition positive_dp1 :: "int list \<Rightarrow> datapoint" where
  "positive_dp1 bits =
     \<lparr>categorical_data = [1], int_data = bits, classification = True, is_classified = True\<rparr>"

text \<open>
  The invariant of the reducer state: at every location \<open>R\<close> and \<open>X_minus_R\<close> are sets that
  split \<open>X\<close>.
\<close>

definition partitioned :: "conjunction list \<Rightarrow> reducer_state \<Rightarrow> bool" where
  "partitioned X st \<longleftrightarrow>
     length (fst st) = length X \<and> length (snd st) = length X \<and>
     (\<forall>k < length X.
        sorted_wrt (<) (fst st ! k) \<and> sorted_wrt (<) (snd st ! k) \<and>
        set (fst st ! k) \<inter> set (snd st ! k) = {} \<and>
        set (fst st ! k) \<union> set (snd st ! k) = set (X ! k))"


text \<open>
  The invariant of the maps of the greedy reducer: the keys of the map of a location are in
  increasing order, a data point recorded under a predicate is of this location and
  falsifies the predicate, which is in \<open>X_minus_R\<close>, and a Horn constraint recorded under a
  predicate has such a data point among its premises.
\<close>

definition entry_ok :: "nat \<Rightarrow> conjunction \<Rightarrow> nat \<times> violators \<Rightarrow> bool" where
  "entry_ok k ps e \<longleftrightarrow>
     (\<forall>x \<in> set (fst (snd e)).
        loc_id (snd x) = k \<and> fst e \<in> set ps \<and> int_data (snd x) ! fst e = 0) \<and>
     (\<forall>y \<in> set (snd (snd e)). \<exists>dp \<in> set (hc_premises (snd y)).
        loc_id dp = k \<and> fst e \<in> set ps \<and> int_data dp ! fst e = 0)"

definition map_ok :: "nat \<Rightarrow> conjunction \<Rightarrow> predicate_map \<Rightarrow> bool" where
  "map_ok k ps m \<longleftrightarrow> sorted_wrt (<) (map fst m) \<and> (\<forall>e \<in> set m. entry_ok k ps e)"

definition recorded_ok :: "conjunction list \<Rightarrow> predicate_map list \<Rightarrow> bool" where
  "recorded_ok M predicates \<longleftrightarrow>
     length predicates = length M \<and> (\<forall>k < length M. map_ok k (M ! k) (predicates ! k))"

text \<open>Some predicate has a data point or a Horn constraint recorded under it.\<close>

definition has_violator :: "predicate_map list \<Rightarrow> bool" where
  "has_violator predicates \<longleftrightarrow> (\<exists>m \<in> set predicates. \<exists>e \<in> set m. 0 < entry_value e)"

text \<open>
  A solver that tries one model: it answers \<^verbatim>\<open>sat\<close> with this model when the model satisfies
  the assertions, and gives no model otherwise.
\<close>

definition checking_solver :: "z3_model \<Rightarrow> z3_solver" where
  "checking_solver model assertions =
     (if list_all (model_holds model) assertions then Inr (Some model) else Inr None)"
section \<open>Properties\<close>

lemma satisfies_iff: "satisfies dp C \<longleftrightarrow> (\<forall>c \<in> set C. int_data dp ! c \<noteq> 0)"
  by (induction C) auto

subsection \<open>The empty conjunction\<close>

text \<open>
  Claim C10. \<^verbatim>\<open>satisfies(dp, C)\<close> returns true for the empty conjunction, whatever the data
  point is: the loop body never runs. Hence a hypothesis of \<open>L\<close> empty
  conjunctions accepts every data point at every location.
\<close>

theorem satisfies_empty:
  "satisfies dp [] \<and> list_all (satisfies dp) (replicate L [])"
  by (simp add: list_all_iff)

subsection \<open>\<^verbatim>\<open>prepare_sets\<close>\<close>

lemma set_set_insert [simp]: "set (set_insert x ys) = insert x (set ys)"
  by (induction ys) auto

lemma sorted_set_insert [simp]: "sorted_wrt (<) ys \<Longrightarrow> sorted_wrt (<) (set_insert x ys)"
  by (induction ys) auto

lemma set_fold_set_insert [simp]: "set (fold set_insert xs acc) = set xs \<union> set acc"
  by (induction xs arbitrary: acc) auto

lemma sorted_fold_set_insert [simp]:
  "sorted_wrt (<) acc \<Longrightarrow> sorted_wrt (<) (fold set_insert xs acc)"
  by (induction xs arbitrary: acc) auto

lemma prepare_walk_sets:
  "sorted_wrt (<) xs \<Longrightarrow> sorted_wrt (<) rs \<Longrightarrow>
     set (fst (prepare_walk xs rs xmr)) = set rs \<inter> set xs \<and>
     set (snd (prepare_walk xs rs xmr)) = set xmr \<union> (set xs - set rs)"
proof (induction xs rs xmr rule: prepare_walk.induct)
  case (1 x xs r rs xmr)
  from "1.prems" have sx: "sorted_wrt (<) xs" and sr: "sorted_wrt (<) rs"
    and xlt: "\<forall>y\<in>set xs. x < y" and rlt: "\<forall>y\<in>set rs. r < y" by simp_all
  show ?case
  proof (cases "r < x")
    case True
    from "1.IH"(1)[OF True "1.prems"(1) sr] True xlt show ?thesis by auto
  next
    case False
    note nlt = this
    show ?thesis
    proof (cases "x < r")
      case True
      from "1.IH"(2)[OF nlt True sx "1.prems"(2)] nlt True rlt show ?thesis by auto
    next
      case False
      with nlt have eq: "x = r" by simp
      from "1.IH"(3)[OF nlt False sx sr] eq xlt rlt show ?thesis
        by (auto simp: case_prod_beta)
    qed
  qed
next
  case (2 xs xmr)
  then show ?case by auto
next
  case (3 r rs xmr)
  then show ?case by auto
qed

lemma prepare_walk_sorted:
  "sorted_wrt (<) xs \<Longrightarrow> sorted_wrt (<) rs \<Longrightarrow> sorted_wrt (<) xmr \<Longrightarrow>
     sorted_wrt (<) (fst (prepare_walk xs rs xmr)) \<and>
     sorted_wrt (<) (snd (prepare_walk xs rs xmr))"
proof (induction xs rs xmr rule: prepare_walk.induct)
  case (1 x xs r rs xmr)
  from "1.prems" have sx: "sorted_wrt (<) xs" and sr: "sorted_wrt (<) rs"
    and xlt: "\<forall>y\<in>set xs. x < y" and rlt: "\<forall>y\<in>set rs. r < y" by simp_all
  show ?case
  proof (cases "r < x")
    case True
    from "1.IH"(1)[OF True "1.prems"(1) sr "1.prems"(3)] True show ?thesis by simp
  next
    case False
    note nlt = this
    show ?thesis
    proof (cases "x < r")
      case True
      have "sorted_wrt (<) (set_insert x xmr)" using "1.prems"(3) by simp
      from "1.IH"(2)[OF nlt True sx "1.prems"(2) this] nlt True show ?thesis by simp
    next
      case False
      with nlt have eq: "x = r" by simp
      have "set (fst (prepare_walk xs rs xmr)) \<subseteq> set rs"
        using prepare_walk_sets[OF sx sr, of xmr] by auto
      with "1.IH"(3)[OF nlt False sx sr "1.prems"(3)] eq rlt show ?thesis
        by (auto simp: case_prod_beta)
    qed
  qed
next
  case (2 xs xmr)
  then show ?case by simp
next
  case (3 r rs xmr)
  then show ?case by simp
qed

lemma prepare_fold_inv:
  assumes len: "length R = length X" "length M = length X"
    and n: "n \<le> length X"
  shows "length (fst (fold (prepare_step X) [0 ..< n] (R, M))) = length X \<and>
         length (snd (fold (prepare_step X) [0 ..< n] (R, M))) = length X \<and>
         (\<forall>k < length X.
            fst (fold (prepare_step X) [0 ..< n] (R, M)) ! k =
              (if k < n then fst (prepare_walk (X ! k) (R ! k) (M ! k)) else R ! k) \<and>
            snd (fold (prepare_step X) [0 ..< n] (R, M)) ! k =
              (if k < n then snd (prepare_walk (X ! k) (R ! k) (M ! k)) else M ! k))"
  using n
proof (induction n)
  case 0
  with len show ?case by simp
next
  case (Suc n)
  then have IH: "length (fst (fold (prepare_step X) [0 ..< n] (R, M))) = length X"
      "length (snd (fold (prepare_step X) [0 ..< n] (R, M))) = length X"
      "\<And>k. k < length X \<Longrightarrow> fst (fold (prepare_step X) [0 ..< n] (R, M)) ! k =
              (if k < n then fst (prepare_walk (X ! k) (R ! k) (M ! k)) else R ! k)"
      "\<And>k. k < length X \<Longrightarrow> snd (fold (prepare_step X) [0 ..< n] (R, M)) ! k =
              (if k < n then snd (prepare_walk (X ! k) (R ! k) (M ! k)) else M ! k)"
    by simp_all
  from Suc.prems have nlt: "n < length X" by simp
  obtain R1 M1 where f: "fold (prepare_step X) [0 ..< n] (R, M) = (R1, M1)"
    by (cases "fold (prepare_step X) [0 ..< n] (R, M)")
  from IH f nlt have R1n: "R1 ! n = R ! n" and M1n: "M1 ! n = M ! n"
    and l1: "length R1 = length X" "length M1 = length X" by auto
  have step: "fold (prepare_step X) [0 ..< Suc n] (R, M) =
      (R1[n := fst (prepare_walk (X ! n) (R ! n) (M ! n))],
       M1[n := snd (prepare_walk (X ! n) (R ! n) (M ! n))])"
    using f R1n M1n by (simp add: prepare_step_def case_prod_beta)
  show ?case unfolding step using IH f l1 nlt
    by (auto simp: nth_list_update less_Suc_eq)
qed

lemma prepare_sets_nth:
  assumes "length R = length X" "length M = length X" "k < length X"
  shows "fst (prepare_sets X R M) ! k = fst (prepare_walk (X ! k) (R ! k) (M ! k))"
    and "snd (prepare_sets X R M) ! k = snd (prepare_walk (X ! k) (R ! k) (M ! k))"
    and "length (fst (prepare_sets X R M)) = length X"
    and "length (snd (prepare_sets X R M)) = length X"
  using prepare_fold_inv[OF assms(1,2), of "length X"] assms(3)
  by (simp_all add: prepare_sets_def)

text \<open>
  Claim C9. Every caller passes \<open>X_minus_R\<close> as a fresh vector of \<open>|X|\<close> empty sets and has
  checked \<open>|X| = |R|\<close>. For conjunction vectors (sets, so strictly increasing element lists)
  \<open>prepare_sets\<close> then leaves \<open>R \<inter> X\<close> in \<open>R\<close> and \<open>X \<setminus> R\<close> in \<open>X_minus_R\<close> at every location:
  the new \<open>R[k]\<close> is a subset of \<open>X[k]\<close>, together with \<open>X_minus_R[k]\<close> it covers \<open>X[k]\<close>, and
  the two are disjoint. \<open>X\<close> is a \<^verbatim>\<open>const\<close> reference and is only read.
\<close>

theorem prepare_sets_correct:
  assumes "length R = length X"
    and "X_minus_R = replicate (length X) []"
    and "list_all (sorted_wrt (<)) X"
    and "list_all (sorted_wrt (<)) R"
    and "prepare_sets X R X_minus_R = (R', XmR')"
    and "k < length X"
  shows "length R' = length X \<and> length XmR' = length X \<and>
         sorted_wrt (<) (R' ! k) \<and> sorted_wrt (<) (XmR' ! k) \<and>
         set (R' ! k) = set (R ! k) \<inter> set (X ! k) \<and>
         set (XmR' ! k) = set (X ! k) - set (R ! k) \<and>
         set (R' ! k) \<subseteq> set (X ! k) \<and>
         set (R' ! k) \<union> set (XmR' ! k) = set (X ! k) \<and>
         set (R' ! k) \<inter> set (XmR' ! k) = {}"
proof -
  have lm: "length X_minus_R = length X" using assms(2) by simp
  have mk: "X_minus_R ! k = []" using assms(2,6) by simp
  have sx: "sorted_wrt (<) (X ! k)" using assms(3,6) by (simp add: list_all_length)
  have sr: "sorted_wrt (<) (R ! k)" using assms(1,4,6) by (simp add: list_all_length)
  have R': "R' ! k = fst (prepare_walk (X ! k) (R ! k) [])"
    using prepare_sets_nth(1)[OF assms(1) lm assms(6)] assms(5) mk by simp
  have M': "XmR' ! k = snd (prepare_walk (X ! k) (R ! k) [])"
    using prepare_sets_nth(2)[OF assms(1) lm assms(6)] assms(5) mk by simp
  have l1: "length R' = length X"
    using prepare_sets_nth(3)[OF assms(1) lm assms(6)] assms(5) by simp
  have l2: "length XmR' = length X"
    using prepare_sets_nth(4)[OF assms(1) lm assms(6)] assms(5) by simp
  have sets: "set (R' ! k) = set (R ! k) \<inter> set (X ! k)"
      "set (XmR' ! k) = set (X ! k) - set (R ! k)"
    using prepare_walk_sets[OF sx sr, of "[]"] R' M' by simp_all
  have srt: "sorted_wrt (<) (R' ! k)" "sorted_wrt (<) (XmR' ! k)"
    using prepare_walk_sorted[OF sx sr, of "[]"] R' M' by simp_all
  from l1 l2 sets srt show ?thesis by auto
qed

theorem prepare_sets_correct_witness:
  "length ([[1, 3], []] :: nat list list) = length ([[0, 1, 3], [4, 6]] :: nat list list) \<and>
   length ([[0], [4, 6]] :: nat list list) = length ([[0, 1, 3], [4, 6]] :: nat list list) \<and>
   sorted_wrt (<) (([[1, 3], []] :: nat list list) ! 0) \<and>
   sorted_wrt (<) (([[0], [4, 6]] :: nat list list) ! 0) \<and>
   set (([[1, 3], []] :: nat list list) ! 0) = set (([[1, 2, 3], []] :: nat list list) ! 0) \<inter> set (([[0, 1, 3], [4, 6]] :: nat list list) ! 0) \<and>
   set (([[0], [4, 6]] :: nat list list) ! 0) = set (([[0, 1, 3], [4, 6]] :: nat list list) ! 0) - set (([[1, 2, 3], []] :: nat list list) ! 0) \<and>
   set (([[1, 3], []] :: nat list list) ! 0) \<subseteq> set (([[0, 1, 3], [4, 6]] :: nat list list) ! 0) \<and>
   set (([[1, 3], []] :: nat list list) ! 0) \<union> set (([[0], [4, 6]] :: nat list list) ! 0) = set (([[0, 1, 3], [4, 6]] :: nat list list) ! 0) \<and>
   set (([[1, 3], []] :: nat list list) ! 0) \<inter> set (([[0], [4, 6]] :: nat list list) ! 0) = {}"
proof -
  have h1: "length ([[1, 2, 3], []] :: nat list list) = length ([[0, 1, 3], [4, 6]] :: nat list list)" by simp
  have h2: "[[], []] = replicate (length ([[0, 1, 3], [4, 6]] :: nat list list)) ([] :: nat list)"
    by (simp add: numeral_2_eq_2)
  have h3: "list_all (sorted_wrt (<)) ([[0, 1, 3], [4, 6]] :: nat list list)" by simp
  have h4: "list_all (sorted_wrt (<)) ([[1, 2, 3], []] :: nat list list)" by simp
  have e: "prepare_sets ([[0, 1, 3], [4, 6]] :: nat list list) ([[1, 2, 3], []] :: nat list list) [[], []] = (([[1, 3], []] :: nat list list), ([[0], [4, 6]] :: nat list list))"
    by (simp add: prepare_sets_def prepare_step_def upt_rec)
  have k: "(0::nat) < length ([[0, 1, 3], [4, 6]] :: nat list list)" by simp
  show ?thesis by (rule prepare_sets_correct[OF h1 h2 h3 h4 e k])
qed

subsection \<open>Horndini\<close>



lemma conj_le_refl [simp]: "conj_le X X"
  by (simp add: conj_le_def)

lemma conj_le_trans: "conj_le A B \<Longrightarrow> conj_le B C \<Longrightarrow> conj_le A C"
  by (auto simp: conj_le_def)

lemma satisfies_mono: "set C' \<subseteq> set C \<Longrightarrow> satisfies dp C \<Longrightarrow> satisfies dp C'"
  by (auto simp: satisfies_iff)

lemma conj_le_satisfies:
  "conj_le H X \<Longrightarrow> k < length X \<Longrightarrow> satisfies dp (X ! k) \<Longrightarrow> satisfies dp (H ! k)"
  by (auto simp: conj_le_def intro: satisfies_mono)

lemma lhs_satisfied_iff:
  "lhs_satisfied R ps \<longleftrightarrow> (\<forall>p \<in> set ps. satisfies p (R ! loc_id p))"
  by (induction ps) auto

lemma satisfies_knock_out [simp]: "satisfies dp (knock_out dp C)"
  by (simp add: satisfies_iff knock_out_def)

lemma set_knock_out: "set (knock_out dp C) = {p \<in> set C. int_data dp ! p \<noteq> 0}"
  by (simp add: knock_out_def)

lemma knock_out_update_le:
  "k < length X \<Longrightarrow> conj_le (X[k := knock_out dp (X ! k)]) X"
  by (auto simp: conj_le_def nth_list_update set_knock_out)

lemma knock_out_below:
  assumes "conj_le H X" "k < length X" "satisfies dp (H ! k)"
  shows "conj_le H (X[k := knock_out dp (X ! k)])"
  using assms by (auto simp: conj_le_def nth_list_update set_knock_out satisfies_iff)

lemma process_positive_le:
  "process_positive pos X = Inr X' \<Longrightarrow> conj_le X' X"
proof (induction pos arbitrary: X)
  case Nil
  then show ?case by simp
next
  case (Cons dp pos)
  from Cons.prems have k: "loc_id dp < length X"
    and r: "process_positive pos (X[loc_id dp := knock_out dp (X ! loc_id dp)]) = Inr X'"
    by (simp_all add: Let_def split: if_splits)
  from Cons.IH[OF r] knock_out_update_le[OF k, of dp] show ?case
    by (rule conj_le_trans)
qed

lemma process_positive_sat:
  "process_positive pos X = Inr X' \<Longrightarrow> dp \<in> set pos \<Longrightarrow>
     loc_id dp < length X \<and> satisfies dp (X' ! loc_id dp)"
proof (induction pos arbitrary: X)
  case Nil
  then show ?case by simp
next
  case (Cons d pos)
  let ?Y = "X[loc_id d := knock_out d (X ! loc_id d)]"
  from Cons.prems have k: "loc_id d < length X"
    and r: "process_positive pos ?Y = Inr X'"
    by (simp_all add: Let_def split: if_splits)
  show ?case
  proof (cases "dp = d")
    case True
    have "satisfies d (?Y ! loc_id d)" using k by simp
    moreover have "conj_le X' ?Y" using process_positive_le[OF r] .
    ultimately have "satisfies d (X' ! loc_id d)"
      using conj_le_satisfies[of X' ?Y "loc_id d" d] k by simp
    with True k show ?thesis by simp
  next
    case False
    with Cons.prems have "dp \<in> set pos" by simp
    from Cons.IH[OF r this] show ?thesis by simp
  qed
qed

lemma process_positive_below:
  "process_positive pos X = Inr X' \<Longrightarrow> conj_le H X \<Longrightarrow>
     \<forall>dp \<in> set pos. satisfies dp (H ! loc_id dp) \<Longrightarrow> conj_le H X'"
proof (induction pos arbitrary: X)
  case Nil
  then show ?case by simp
next
  case (Cons d pos)
  let ?Y = "X[loc_id d := knock_out d (X ! loc_id d)]"
  from Cons.prems have k: "loc_id d < length X"
    and r: "process_positive pos ?Y = Inr X'"
    by (simp_all add: Let_def split: if_splits)
  have "conj_le H ?Y" using knock_out_below[OF Cons.prems(2) k] Cons.prems(3) by simp
  from Cons.IH[OF r this] Cons.prems(3) show ?case by simp
qed

lemma process_positive_error:
  "process_positive pos X = Inl e \<Longrightarrow> e = AssertionFailed \<and> (\<exists>dp \<in> set pos. \<not> loc_id dp < length X)"
proof (induction pos arbitrary: X)
  case Nil
  then show ?case by simp
next
  case (Cons d pos)
  show ?case
  proof (cases "loc_id d < length X")
    case True
    with Cons.prems have "process_positive pos (X[loc_id d := knock_out d (X ! loc_id d)]) = Inl e"
      by (simp add: Let_def)
    from Cons.IH[OF this] show ?thesis by simp
  next
    case False
    with Cons.prems show ?thesis by (simp add: Let_def)
  qed
qed

lemma discharge_Inr:
  "discharge X ps = Inr ps' \<Longrightarrow>
     ps' = filter (\<lambda>p. \<not> satisfies p (X ! loc_id p)) ps \<and> (\<forall>p \<in> set ps. loc_id p < length X)"
proof (induction ps arbitrary: ps')
  case Nil
  then show ?case by simp
next
  case (Cons p ps)
  from Cons.prems have k: "loc_id p < length X"
    by (simp add: Let_def split: if_splits)
  with Cons.prems obtain qs where q: "discharge X ps = Inr qs"
    and e: "ps' = (if satisfies p (X ! loc_id p) then qs else p # qs)"
    by (auto simp: Let_def split: sum.splits if_splits)
  from Cons.IH[OF q] e k show ?case by simp
qed

lemma discharge_Inl:
  "discharge X ps = Inl e \<Longrightarrow> e = AssertionFailed \<and> (\<exists>p \<in> set ps. \<not> loc_id p < length X)"
proof (induction ps)
  case Nil
  then show ?case by simp
next
  case (Cons p ps)
  show ?case
  proof (cases "loc_id p < length X")
    case True
    with Cons.prems have "discharge X ps = Inl e"
      by (simp add: Let_def split: sum.splits if_splits)
    from Cons.IH[OF this] show ?thesis by simp
  next
    case False
    with Cons.prems show ?thesis by (simp add: Let_def)
  qed
qed



lemma filter_nil_lhs:
  "filter (\<lambda>p. \<not> satisfies p (X ! loc_id p)) ps = [] \<longleftrightarrow> lhs_satisfied X ps"
  by (auto simp: lhs_satisfied_iff filter_empty_conv)

lemma fire_Inr:
  "fire X hcs = Inr (pos, hcs') \<Longrightarrow>
     pos = map (the \<circ> hc_conclusion) (filter (\<lambda>hc. lhs_satisfied X (hc_premises hc)) hcs) \<and>
     hcs' = map (kept X) (filter (\<lambda>hc. \<not> lhs_satisfied X (hc_premises hc)) hcs) \<and>
     (\<forall>hc \<in> set hcs. (\<forall>p \<in> set (hc_premises hc). loc_id p < length X) \<and>
        (lhs_satisfied X (hc_premises hc) \<longrightarrow> hc_conclusion hc \<noteq> None))"
proof (induction hcs arbitrary: pos hcs')
  case Nil
  then show ?case by simp
next
  case (Cons hc hcs)
  from Cons.prems obtain ps where d: "discharge X (hc_premises hc) = Inr ps"
    by (auto split: sum.splits)
  note dd = discharge_Inr[OF d]
  have nil: "ps = [] \<longleftrightarrow> lhs_satisfied X (hc_premises hc)"
    using dd filter_nil_lhs by simp
  show ?case
  proof (cases "ps = []")
    case True
    with Cons.prems d obtain c pos1 where c: "hc_conclusion hc = Some c"
      and f: "fire X hcs = Inr (pos1, hcs')" and p: "pos = c # pos1"
      by (auto split: sum.splits option.splits prod.splits)
    from Cons.IH[OF f] c p True nil dd show ?thesis by simp
  next
    case False
    with Cons.prems d obtain hcs1 where
      f: "fire X hcs = Inr (pos, hcs1)" and p: "hcs' = hc\<lparr>hc_premises := ps\<rparr> # hcs1"
      by (auto split: sum.splits option.splits prod.splits)
    from Cons.IH[OF f] p False nil dd show ?thesis by (simp add: kept_def)
  qed
qed

lemma fire_Inl:
  "fire X hcs = Inl e \<Longrightarrow>
     (e = AssertionFailed \<and> (\<exists>hc \<in> set hcs. \<exists>p \<in> set (hc_premises hc). \<not> loc_id p < length X)) \<or>
     (e = RuntimeError ''No consistent conjunction exists'' \<and>
      (\<exists>hc \<in> set hcs. hc_conclusion hc = None \<and> lhs_satisfied X (hc_premises hc) \<and>
         (\<forall>p \<in> set (hc_premises hc). loc_id p < length X)))"
proof (induction hcs)
  case Nil
  then show ?case by simp
next
  case (Cons hc hcs)
  show ?case
  proof (cases "discharge X (hc_premises hc)")
    case (Inl e')
    with Cons.prems have "e = e'" by simp
    with discharge_Inl[OF Inl] show ?thesis by auto
  next
    case (Inr ps)
    note dd = discharge_Inr[OF Inr]
    have nil: "ps = [] \<longleftrightarrow> lhs_satisfied X (hc_premises hc)"
      using dd filter_nil_lhs by simp
    show ?thesis
    proof (cases "ps = [] \<and> hc_conclusion hc = None")
      case True
      with Cons.prems Inr nil dd show ?thesis by simp
    next
      case False
      with Cons.prems Inr have "fire X hcs = Inl e"
        by (auto split: sum.splits option.splits prod.splits if_splits)
      from Cons.IH[OF this] show ?thesis by auto
    qed
  qed
qed

declare horndini_loop.simps [simp del]

lemma loop_pos_error:
  "process_positive pos X = Inl e \<Longrightarrow> horndini_loop X pos hcs = (X, Some e)"
  by (simp add: horndini_loop.simps)

lemma loop_fire_error:
  "process_positive pos X = Inr X' \<Longrightarrow> fire X' hcs = Inl e \<Longrightarrow>
     horndini_loop X pos hcs = (X', Some e)"
  by (simp add: horndini_loop.simps)

lemma loop_done:
  "process_positive pos X = Inr X' \<Longrightarrow> fire X' hcs = Inr ([], hcs') \<Longrightarrow>
     horndini_loop X pos hcs = (X', None)"
  by (simp add: horndini_loop.simps)

lemma loop_again:
  "process_positive pos X = Inr X' \<Longrightarrow> fire X' hcs = Inr (pos', hcs') \<Longrightarrow> pos' \<noteq> [] \<Longrightarrow>
     horndini_loop X pos hcs = horndini_loop X' pos' hcs'"
  by (simp add: horndini_loop.simps)

lemma loop_shrinks: "conj_le (fst (horndini_loop X pos hcs)) X"
proof (induction X pos hcs rule: horndini_loop.induct)
  case (1 X pos hcs)
  show ?case
  proof (cases "process_positive pos X")
    case (Inl e)
    then show ?thesis by (simp add: loop_pos_error)
  next
    case (Inr X')
    note pp = this
    have le: "conj_le X' X" using process_positive_le[OF pp] .
    show ?thesis
    proof (cases "fire X' hcs")
      case (Inl e)
      with pp le show ?thesis by (simp add: loop_fire_error)
    next
      case (Inr r)
      obtain pos' hcs' where r: "r = (pos', hcs')" by (cases r)
      show ?thesis
      proof (cases "pos' = []")
        case True
        with pp Inr r le show ?thesis by (simp add: loop_done)
      next
        case False
        have "conj_le (fst (horndini_loop X' pos' hcs')) X'"
          using "1.IH"[OF pp Inr r[symmetric] False] .
        then have "conj_le (fst (horndini_loop X' pos' hcs')) X"
          using le by (rule conj_le_trans)
        then show ?thesis using loop_again[OF pp Inr[unfolded r] False] by simp
      qed
    qed
  qed
qed



lemma conclusion_satisfied_kept [simp]:
  "conclusion_satisfied H (kept X hc) = conclusion_satisfied H hc"
  by (simp add: conclusion_satisfied_def kept_def)

lemma hc_premises_kept:
  "hc_premises (kept X hc) = filter (\<lambda>p. \<not> satisfies p (X ! loc_id p)) (hc_premises hc)"
  by (simp add: kept_def)

lemma lhs_satisfied_below:
  "conj_le H X \<Longrightarrow> \<forall>p \<in> set ps. loc_id p < length X \<Longrightarrow> lhs_satisfied X ps \<Longrightarrow>
     lhs_satisfied H ps"
  by (auto simp: lhs_satisfied_iff intro: conj_le_satisfies)

lemma horn_ok_kept:
  assumes "conj_le H X" "\<forall>p \<in> set (hc_premises hc). loc_id p < length X" "horn_ok H hc"
  shows "horn_ok H (kept X hc)"
proof -
  have "lhs_satisfied H (hc_premises hc)" if "lhs_satisfied H (hc_premises (kept X hc))"
    unfolding lhs_satisfied_iff
  proof
    fix p assume p: "p \<in> set (hc_premises hc)"
    show "satisfies p (H ! loc_id p)"
    proof (cases "satisfies p (X ! loc_id p)")
      case True
      with assms(1,2) p show ?thesis by (auto intro: conj_le_satisfies)
    next
      case False
      with p have "p \<in> set (hc_premises (kept X hc))" by (simp add: hc_premises_kept)
      with that show ?thesis by (simp add: lhs_satisfied_iff)
    qed
  qed
  with assms(3) show ?thesis by (auto simp: horn_ok_def)
qed

text \<open>Every hypothesis below the current conjunctions that respects the positive data
  points and the Horn constraints stays below, and the run does not throw.\<close>

lemma loop_upper:
  assumes "conj_le H X"
    and "\<forall>dp \<in> set pos. satisfies dp (H ! loc_id dp)"
    and "\<forall>hc \<in> set hcs. horn_ok H hc"
  shows "conj_le H (fst (horndini_loop X pos hcs)) \<and>
         snd (horndini_loop X pos hcs) \<noteq> Some (RuntimeError ''No consistent conjunction exists'')"
  using assms
proof (induction X pos hcs rule: horndini_loop.induct)
  case (1 X pos hcs)
  show ?case
  proof (cases "process_positive pos X")
    case (Inl e)
    with process_positive_error[OF Inl] "1.prems"(1) show ?thesis by (simp add: loop_pos_error)
  next
    case (Inr X')
    note pp = this
    have le: "conj_le H X'" using process_positive_below[OF pp "1.prems"(1,2)] .
    show ?thesis
    proof (cases "fire X' hcs")
      case (Inl e)
      have "e \<noteq> RuntimeError ''No consistent conjunction exists''"
      proof
        assume "e = RuntimeError ''No consistent conjunction exists''"
        with fire_Inl[OF Inl] obtain hc where hc: "hc \<in> set hcs" "hc_conclusion hc = None"
          "lhs_satisfied X' (hc_premises hc)" "\<forall>p \<in> set (hc_premises hc). loc_id p < length X'"
          by auto
        have "lhs_satisfied H (hc_premises hc)"
          using lhs_satisfied_below[OF le hc(4,3)] .
        moreover have "horn_ok H hc" using "1.prems"(3) hc(1) by simp
        ultimately have "conclusion_satisfied H hc" by (simp add: horn_ok_def)
        with hc(2) show False by (simp add: conclusion_satisfied_def)
      qed
      with pp Inl le show ?thesis by (simp add: loop_fire_error)
    next
      case (Inr r)
      obtain pos' hcs' where r: "r = (pos', hcs')" by (cases r)
      note f = fire_Inr[OF Inr[unfolded r]]
      have locs: "\<forall>p \<in> set (hc_premises hc). loc_id p < length X'" if "hc \<in> set hcs" for hc
        using f that by simp
      have pos'_ok: "\<forall>dp \<in> set pos'. satisfies dp (H ! loc_id dp)"
      proof
        fix dp assume "dp \<in> set pos'"
        with f obtain hc where hc: "hc \<in> set hcs" "lhs_satisfied X' (hc_premises hc)"
          "dp = the (hc_conclusion hc)" by auto
        have "lhs_satisfied H (hc_premises hc)"
          using lhs_satisfied_below[OF le locs[OF hc(1)] hc(2)] .
        moreover have "horn_ok H hc" using "1.prems"(3) hc(1) by simp
        ultimately have "conclusion_satisfied H hc" by (simp add: horn_ok_def)
        with hc(3) show "satisfies dp (H ! loc_id dp)"
          by (auto simp: conclusion_satisfied_def split: option.splits)
      qed
      have hcs'_ok: "\<forall>hc' \<in> set hcs'. horn_ok H hc'"
      proof
        fix hc' assume "hc' \<in> set hcs'"
        with f obtain hc where hc: "hc \<in> set hcs" "hc' = kept X' hc" by auto
        have "horn_ok H hc" using "1.prems"(3) hc(1) by simp
        from horn_ok_kept[OF le locs[OF hc(1)] this] hc(2) show "horn_ok H hc'" by simp
      qed
      show ?thesis
      proof (cases "pos' = []")
        case True
        with pp Inr r le show ?thesis by (simp add: loop_done)
      next
        case False
        from "1.IH"[OF pp Inr r[symmetric] False le pos'_ok hcs'_ok]
        show ?thesis using loop_again[OF pp Inr[unfolded r] False] by simp
      qed
    qed
  qed
qed

lemma horn_ok_unkept:
  assumes "horn_ok Y (kept X hc)"
  shows "horn_ok Y hc"
proof -
  have "lhs_satisfied Y (hc_premises (kept X hc))" if "lhs_satisfied Y (hc_premises hc)"
    using that by (auto simp: lhs_satisfied_iff hc_premises_kept)
  with assms show ?thesis by (auto simp: horn_ok_def)
qed

text \<open>A run that ends without an error leaves conjunctions that every positive data
  point of the queue satisfies and that respect every Horn constraint of the working copy.\<close>

lemma loop_sound:
  assumes "snd (horndini_loop X pos hcs) = None"
  shows "(\<forall>dp \<in> set pos. loc_id dp < length X \<and>
            satisfies dp (fst (horndini_loop X pos hcs) ! loc_id dp)) \<and>
         (\<forall>hc \<in> set hcs. horn_ok (fst (horndini_loop X pos hcs)) hc)"
  using assms
proof (induction X pos hcs rule: horndini_loop.induct)
  case (1 X pos hcs)
  show ?case
  proof (cases "process_positive pos X")
    case (Inl e)
    with "1.prems" show ?thesis by (simp add: loop_pos_error)
  next
    case (Inr X')
    note pp = this
    have len: "length X' = length X" using process_positive_le[OF pp] by (simp add: conj_le_def)
    show ?thesis
    proof (cases "fire X' hcs")
      case (Inl e)
      with pp "1.prems" show ?thesis by (simp add: loop_fire_error)
    next
      case (Inr r)
      obtain pos' hcs' where r: "r = (pos', hcs')" by (cases r)
      note f = fire_Inr[OF Inr[unfolded r]]
      let ?Xf = "fst (horndini_loop X pos hcs)"
      have Xf_le: "conj_le ?Xf X'"
      proof (cases "pos' = []")
        case True
        with pp Inr r show ?thesis by (simp add: loop_done)
      next
        case False
        show ?thesis using loop_shrinks[of X' pos' hcs'] loop_again[OF pp Inr[unfolded r] False]
          by simp
      qed
      have A: "\<forall>dp \<in> set pos. loc_id dp < length X \<and> satisfies dp (?Xf ! loc_id dp)"
      proof
        fix dp assume "dp \<in> set pos"
        from process_positive_sat[OF pp this]
        have k: "loc_id dp < length X" and s: "satisfies dp (X' ! loc_id dp)" by simp_all
        from conj_le_satisfies[OF Xf_le _ s] k len
        show "loc_id dp < length X \<and> satisfies dp (?Xf ! loc_id dp)" by simp
      qed
      have B: "\<forall>hc \<in> set hcs. horn_ok ?Xf hc"
      proof (cases "pos' = []")
        case True
        then have Xf: "?Xf = X'" using pp Inr r by (simp add: loop_done)
        from True f have "\<forall>hc \<in> set hcs. \<not> lhs_satisfied X' (hc_premises hc)"
          by (auto simp: filter_empty_conv)
        then show ?thesis unfolding Xf by (simp add: horn_ok_def)
      next
        case False
        have eq: "horndini_loop X pos hcs = horndini_loop X' pos' hcs'"
          using loop_again[OF pp Inr[unfolded r] False] .
        from "1.prems" eq have "snd (horndini_loop X' pos' hcs') = None" by simp
        from "1.IH"[OF pp Inr r[symmetric] False this]
        have ih1: "\<forall>dp \<in> set pos'. satisfies dp (?Xf ! loc_id dp)"
          and ih2: "\<forall>hc \<in> set hcs'. horn_ok ?Xf hc" using eq by simp_all
        show ?thesis
        proof
          fix hc assume hc: "hc \<in> set hcs"
          show "horn_ok ?Xf hc"
          proof (cases "lhs_satisfied X' (hc_premises hc)")
            case True
            with f hc have "hc_conclusion hc \<noteq> None" by simp
            then obtain c where c: "hc_conclusion hc = Some c" by auto
            with f hc True have "c \<in> set pos'" by force
            with ih1 have "satisfies c (?Xf ! loc_id c)" by simp
            with c show ?thesis by (simp add: horn_ok_def conclusion_satisfied_def)
          next
            case False
            with f hc have "kept X' hc \<in> set hcs'" by simp
            with ih2 have "horn_ok ?Xf (kept X' hc)" by simp
            then show ?thesis by (rule horn_ok_unkept)
          qed
        qed
      qed
      from A B show ?thesis by simp
    qed
  qed
qed

text \<open>The only exception of the run is the one for a constraint with conclusion \<open>\<bottom>\<close> whose
  premises all satisfy the conjunctions the run has reached.\<close>

lemma loop_error:
  assumes "snd (horndini_loop X pos hcs) = Some e"
  shows "e = AssertionFailed \<or>
         (e = RuntimeError ''No consistent conjunction exists'' \<and>
          (\<exists>hc \<in> set hcs. hc_conclusion hc = None \<and>
             lhs_satisfied (fst (horndini_loop X pos hcs)) (hc_premises hc)))"
  using assms
proof (induction X pos hcs rule: horndini_loop.induct)
  case (1 X pos hcs)
  show ?case
  proof (cases "process_positive pos X")
    case (Inl e')
    with "1.prems" process_positive_error[OF Inl] show ?thesis by (simp add: loop_pos_error)
  next
    case (Inr X')
    note pp = this
    show ?thesis
    proof (cases "fire X' hcs")
      case (Inl e')
      with pp "1.prems" have "e' = e" and "fst (horndini_loop X pos hcs) = X'"
        by (simp_all add: loop_fire_error)
      with fire_Inl[OF Inl] show ?thesis by auto
    next
      case (Inr r)
      obtain pos' hcs' where r: "r = (pos', hcs')" by (cases r)
      note f = fire_Inr[OF Inr[unfolded r]]
      show ?thesis
      proof (cases "pos' = []")
        case True
        with pp Inr r "1.prems" show ?thesis by (simp add: loop_done)
      next
        case False
        let ?Xf = "fst (horndini_loop X pos hcs)"
        have eq: "horndini_loop X pos hcs = horndini_loop X' pos' hcs'"
          using loop_again[OF pp Inr[unfolded r] False] .
        have Xf_le: "conj_le ?Xf X'" using loop_shrinks[of X' pos' hcs'] eq by simp
        from "1.prems" eq have "snd (horndini_loop X' pos' hcs') = Some e" by simp
        from "1.IH"[OF pp Inr r[symmetric] False this]
        have ih: "e = AssertionFailed \<or>
           (e = RuntimeError ''No consistent conjunction exists'' \<and>
            (\<exists>hc' \<in> set hcs'. hc_conclusion hc' = None \<and> lhs_satisfied ?Xf (hc_premises hc')))"
          using eq by simp
        show ?thesis
        proof (cases "e = AssertionFailed")
          case True
          then show ?thesis by simp
        next
          case False
          with ih obtain hc' where e: "e = RuntimeError ''No consistent conjunction exists''"
            and hc': "hc' \<in> set hcs'" "hc_conclusion hc' = None"
              "lhs_satisfied ?Xf (hc_premises hc')" by auto
          from f hc'(1) obtain hc where hc: "hc \<in> set hcs" "hc' = kept X' hc" by auto
          have "lhs_satisfied ?Xf (hc_premises hc)" unfolding lhs_satisfied_iff
          proof
            fix p assume p: "p \<in> set (hc_premises hc)"
            show "satisfies p (?Xf ! loc_id p)"
            proof (cases "satisfies p (X' ! loc_id p)")
              case True
              from f hc(1) p have "loc_id p < length X'" by simp
              from conj_le_satisfies[OF Xf_le this True] show ?thesis .
            next
              case False
              with p hc(2) have "p \<in> set (hc_premises hc')" by (simp add: hc_premises_kept)
              with hc'(3) show ?thesis by (simp add: lhs_satisfied_iff)
            qed
          qed
          moreover from hc'(2) hc(2) have "hc_conclusion hc = None" by (simp add: kept_def)
          ultimately show ?thesis using e hc(1) by auto
        qed
      qed
    qed
  qed
qed

lemma loop_no_assert:
  assumes "\<forall>dp \<in> set pos. loc_id dp < length X"
    and "\<forall>hc \<in> set hcs. (\<forall>p \<in> set (hc_premises hc). loc_id p < length X) \<and>
           (\<forall>c. hc_conclusion hc = Some c \<longrightarrow> loc_id c < length X)"
  shows "snd (horndini_loop X pos hcs) \<noteq> Some AssertionFailed"
  using assms
proof (induction X pos hcs rule: horndini_loop.induct)
  case (1 X pos hcs)
  show ?case
  proof (cases "process_positive pos X")
    case (Inl e)
    with process_positive_error[OF Inl] "1.prems"(1) show ?thesis by auto
  next
    case (Inr X')
    note pp = this
    have len: "length X' = length X" using process_positive_le[OF pp] by (simp add: conj_le_def)
    show ?thesis
    proof (cases "fire X' hcs")
      case (Inl e)
      with fire_Inl[OF Inl] "1.prems"(2) len have "e \<noteq> AssertionFailed" by auto
      with pp Inl show ?thesis by (simp add: loop_fire_error)
    next
      case (Inr r)
      obtain pos' hcs' where r: "r = (pos', hcs')" by (cases r)
      note f = fire_Inr[OF Inr[unfolded r]]
      show ?thesis
      proof (cases "pos' = []")
        case True
        with pp Inr r show ?thesis by (simp add: loop_done)
      next
        case False
        have p1: "\<forall>dp \<in> set pos'. loc_id dp < length X'"
        proof
          fix dp assume "dp \<in> set pos'"
          with f obtain hc where hc: "hc \<in> set hcs" "lhs_satisfied X' (hc_premises hc)"
            "dp = the (hc_conclusion hc)" by auto
          with f have "hc_conclusion hc \<noteq> None" by simp
          with hc(3) have "hc_conclusion hc = Some dp" by auto
          with "1.prems"(2) hc(1) len show "loc_id dp < length X'" by simp
        qed
        have p2: "\<forall>hc \<in> set hcs'. (\<forall>p \<in> set (hc_premises hc). loc_id p < length X') \<and>
           (\<forall>c. hc_conclusion hc = Some c \<longrightarrow> loc_id c < length X')"
        proof
          fix hc' assume "hc' \<in> set hcs'"
          with f obtain hc where hc: "hc \<in> set hcs" "hc' = kept X' hc" by auto
          with "1.prems"(2) len show "(\<forall>p \<in> set (hc_premises hc'). loc_id p < length X') \<and>
           (\<forall>c. hc_conclusion hc' = Some c \<longrightarrow> loc_id c < length X')"
            by (simp add: kept_def)
        qed
        from "1.IH"[OF pp Inr r[symmetric] False p1 p2]
        show ?thesis using loop_again[OF pp Inr[unfolded r] False] by simp
      qed
    qed
  qed
qed

lemma fill_interval_diverges:
  assumes "fill_interval j hi acc = Some C"
  shows "(2::nat) ^ 32 - 1 \<le> hi \<longrightarrow> j < 2 ^ 32 \<longrightarrow> False"
proof (rule fill_interval.raw_induct[where P = "\<lambda>j hi acc C. (2::nat) ^ 32 - 1 \<le> hi \<longrightarrow> j < 2 ^ 32 \<longrightarrow> False",
      OF _ assms])
  fix f :: "nat \<Rightarrow> nat \<Rightarrow> conjunction \<Rightarrow> conjunction option" and j hi acc C
  assume IH: "\<And>j hi acc C. f j hi acc = Some C \<Longrightarrow> (2::nat) ^ 32 - 1 \<le> hi \<longrightarrow> j < 2 ^ 32 \<longrightarrow> False"
    and eq: "(if j \<le> hi then f ((j + 1) mod 2 ^ 32) hi (set_insert j acc) else Some acc) = Some C"
  show "(2::nat) ^ 32 - 1 \<le> hi \<longrightarrow> j < 2 ^ 32 \<longrightarrow> False"
  proof (intro impI)
    assume hi: "(2::nat) ^ 32 - 1 \<le> hi" and j: "j < 2 ^ 32"
    from j hi have "j \<le> hi" by simp
    with eq have "f ((j + 1) mod 2 ^ 32) hi (set_insert j acc) = Some C" by simp
    moreover have "(j + 1) mod 2 ^ 32 < (2::nat) ^ 32" by simp
    ultimately show False using IH hi by blast
  qed
qed

lemma fill_interval_bounded:
  assumes "fill_interval j hi acc = Some C"
  shows "hi < 2 ^ 32 - 1 \<longrightarrow>
     set C = set acc \<union> {j..hi} \<and> (sorted_wrt (<) acc \<longrightarrow> sorted_wrt (<) C)"
proof (rule fill_interval.raw_induct[where P = "\<lambda>j hi acc C. hi < 2 ^ 32 - 1 \<longrightarrow>
     set C = set acc \<union> {j..hi} \<and> (sorted_wrt (<) acc \<longrightarrow> sorted_wrt (<) C)", OF _ assms])
  fix f :: "nat \<Rightarrow> nat \<Rightarrow> conjunction \<Rightarrow> conjunction option" and j hi acc C
  assume IH: "\<And>j hi acc C. f j hi acc = Some C \<Longrightarrow> hi < 2 ^ 32 - 1 \<longrightarrow>
     set C = set acc \<union> {j..hi} \<and> (sorted_wrt (<) acc \<longrightarrow> sorted_wrt (<) C)"
    and eq: "(if j \<le> hi then f ((j + 1) mod 2 ^ 32) hi (set_insert j acc) else Some acc) = Some C"
  show "hi < 2 ^ 32 - 1 \<longrightarrow>
     set C = set acc \<union> {j..hi} \<and> (sorted_wrt (<) acc \<longrightarrow> sorted_wrt (<) C)"
  proof (intro impI)
    assume hi: "hi < 2 ^ 32 - 1"
    show "set C = set acc \<union> {j..hi} \<and> (sorted_wrt (<) acc \<longrightarrow> sorted_wrt (<) C)"
    proof (cases "j \<le> hi")
      case True
      with hi have "j + 1 < 2 ^ 32" by simp
      then have m: "(j + 1) mod 2 ^ 32 = j + 1" by (rule mod_less)
      from True eq have "f ((j + 1) mod 2 ^ 32) hi (set_insert j acc) = Some C" by simp
      then have "f (j + 1) hi (set_insert j acc) = Some C" unfolding m .
      from IH[OF this] hi have "set C = set (set_insert j acc) \<union> {j + 1..hi}"
        and "sorted_wrt (<) (set_insert j acc) \<longrightarrow> sorted_wrt (<) C" by simp_all
      moreover have "insert j {j + 1..hi} = {j..hi}" using True by auto
      ultimately show ?thesis by auto
    next
      case False
      with eq show ?thesis by simp
    qed
  qed
qed

lemma fill_interval_Some:
  assumes "fill_interval j hi acc = Some C"
  shows "set C = set acc \<union> {j..hi} \<and> (sorted_wrt (<) acc \<longrightarrow> sorted_wrt (<) C)"
proof (cases "hi < 2 ^ 32 - 1")
  case True
  from fill_interval_bounded[OF assms] True show ?thesis by simp
next
  case False
  show ?thesis
  proof (cases "j \<le> hi")
    case True
    with assms have "fill_interval ((j + 1) mod 2 ^ 32) hi (set_insert j acc) = Some C"
      by (subst (asm) fill_interval.simps) simp
    moreover have "(j + 1) mod 2 ^ 32 < (2::nat) ^ 32" by simp
    ultimately show ?thesis using fill_interval_diverges False by (meson not_less)
  next
    case False
    with assms show ?thesis by (subst (asm) fill_interval.simps) simp
  qed
qed

lemma initial_conjunctions_Some:
  "initial_conjunctions ivs = Some X \<Longrightarrow>
     length X = length ivs \<and>
     (\<forall>k < length ivs. set (X ! k) = {fst (ivs ! k) .. snd (ivs ! k)} \<and> sorted_wrt (<) (X ! k))"
proof (induction ivs arbitrary: X)
  case Nil
  then show ?case by simp
next
  case (Cons iv ivs)
  from Cons.prems obtain c cs where c: "fill_interval (fst iv) (snd iv) [] = Some c"
    and cs: "initial_conjunctions ivs = Some cs" and X: "X = c # cs"
    by (auto split: option.splits)
  from fill_interval_Some[OF c] Cons.IH[OF cs] X show ?case
    by (auto simp: nth_Cons split: nat.splits)
qed


lemma check_datapoints_iff:
  "check_datapoints H data \<longleftrightarrow>
     (\<forall>dp \<in> set data. is_classified dp \<longrightarrow> satisfies dp (H ! loc_id dp) = classification dp)"
  by (induction data) (auto simp: Let_def)

lemma check_horn_constraints_iff:
  "check_horn_constraints H horns \<longleftrightarrow> (\<forall>hc \<in> set horns. horn_ok H hc)"
  by (induction horns) (auto simp: Let_def horn_ok_def)

lemma is_consistent_iff:
  "is_consistent H data horns \<longleftrightarrow>
     (\<forall>dp \<in> set data. is_classified dp \<longrightarrow> satisfies dp (H ! loc_id dp) = classification dp) \<and>
     (\<forall>hc \<in> set horns. horn_ok H hc)"
  by (auto simp: is_consistent_def check_datapoints_iff check_horn_constraints_iff)

lemma within_intervals_le:
  assumes "within_intervals ivs H" "initial_conjunctions ivs = Some X0"
  shows "conj_le H X0"
proof -
  from assms(1) have len: "length H = length ivs"
    and el: "\<And>k. k < length ivs \<Longrightarrow> set (H ! k) \<subseteq> {fst (ivs ! k) .. snd (ivs ! k)}"
    by (auto simp: within_intervals_def list_all2_conv_all_nth list_all_iff)
  from initial_conjunctions_Some[OF assms(2)] len el show ?thesis
    by (simp add: conj_le_def)
qed

lemma horndini_Inr:
  assumes "horndini data horns ivs = Some (Inr X)"
  obtains X0 where "ivs \<noteq> []" "initial_conjunctions ivs = Some X0"
    "horndini_core data horns X0 = (X, None)"
  using assms
  by (auto simp: horndini_def split: if_splits option.splits prod.splits)

lemma process_positive_sorted:
  "process_positive pos X = Inr X' \<Longrightarrow> list_all (sorted_wrt (<)) X \<Longrightarrow>
     list_all (sorted_wrt (<)) X'"
proof (induction pos arbitrary: X)
  case Nil
  then show ?case by simp
next
  case (Cons d pos)
  let ?Y = "X[loc_id d := knock_out d (X ! loc_id d)]"
  from Cons.prems have k: "loc_id d < length X"
    and r: "process_positive pos ?Y = Inr X'"
    by (simp_all add: Let_def split: if_splits)
  have "sorted_wrt (<) (knock_out d (X ! loc_id d))"
    using Cons.prems(2) k by (simp add: knock_out_def list_all_length sorted_wrt_filter)
  with Cons.prems(2) k have "list_all (sorted_wrt (<)) ?Y"
    unfolding list_all_length by (simp add: nth_list_update)
  from Cons.IH[OF r this] show ?case .
qed

lemma loop_sorted:
  "list_all (sorted_wrt (<)) X \<Longrightarrow> list_all (sorted_wrt (<)) (fst (horndini_loop X pos hcs))"
proof (induction X pos hcs rule: horndini_loop.induct)
  case (1 X pos hcs)
  show ?case
  proof (cases "process_positive pos X")
    case (Inl e)
    with "1.prems" show ?thesis by (simp add: loop_pos_error)
  next
    case (Inr X')
    note pp = this
    have s: "list_all (sorted_wrt (<)) X'" using process_positive_sorted[OF pp "1.prems"] .
    show ?thesis
    proof (cases "fire X' hcs")
      case (Inl e)
      with pp s show ?thesis by (simp add: loop_fire_error)
    next
      case (Inr r)
      obtain pos' hcs' where r: "r = (pos', hcs')" by (cases r)
      show ?thesis
      proof (cases "pos' = []")
        case True
        with pp Inr r s show ?thesis by (simp add: loop_done)
      next
        case False
        from "1.IH"[OF pp Inr r[symmetric] False s]
        show ?thesis using loop_again[OF pp Inr[unfolded r] False] by simp
      qed
    qed
  qed
qed

text \<open>
  Claim C2, as amended. When \<^verbatim>\<open>horndini\<close> returns \<open>X\<close>, then \<open>X\<close> is a hypothesis over the
  intervals that is consistent with the positive data points and with the Horn constraints,
  and every hypothesis \<open>H\<close> over the intervals that is consistent with the whole sample lies
  below it, \<open>H[k] \<subseteq> X[k]\<close> at every location; if there is such an \<open>H\<close>, then \<open>X\<close> is
  consistent with the whole sample too, negative data points included. Horndini itself never
  looks at a negative data point.
\<close>

theorem horndini_greatest:
  assumes ret: "horndini datapoints horn_constraints intervals = Some (Inr X)"
    and wf: "wf_sample (length intervals) P datapoints horn_constraints"
    and iv: "list_all (\<lambda>iv. snd iv < P) intervals"
  shows "is_consistent X (positive_datapoints datapoints) horn_constraints \<and>
         within_intervals intervals X \<and>
         (within_intervals intervals H \<and> is_consistent H datapoints horn_constraints \<longrightarrow>
            is_consistent X datapoints horn_constraints \<and>
            (\<forall>k < length intervals. set (H ! k) \<subseteq> set (X ! k)))"
proof -
  let ?pos = "positive_datapoints datapoints"
  from ret obtain X0 where ne: "intervals \<noteq> []" and X0: "initial_conjunctions intervals = Some X0"
    and core: "horndini_core datapoints horn_constraints X0 = (X, None)"
    by (rule horndini_Inr)
  have loop: "horndini_loop X0 ?pos horn_constraints = (X, None)"
    using core by (simp add: horndini_core_def positive_datapoints_def)
  note init = initial_conjunctions_Some[OF X0]
  have leX: "conj_le X X0" using loop_shrinks[of X0 ?pos horn_constraints] loop by simp
  then have lenX: "length X = length intervals" using init by (simp add: conj_le_def)
  have sound: "\<forall>dp \<in> set ?pos. satisfies dp (X ! loc_id dp)"
      "\<forall>hc \<in> set horn_constraints. horn_ok X hc"
    using loop_sound[of X0 ?pos horn_constraints] loop by simp_all
  have c1: "is_consistent X ?pos horn_constraints"
    using sound by (auto simp: is_consistent_iff positive_datapoints_def)
  have srt0: "list_all (sorted_wrt (<)) X0" using init by (simp add: list_all_length)
  have srt: "list_all (sorted_wrt (<)) X"
    using loop_sorted[OF srt0, of ?pos horn_constraints] loop by simp
  have c2: "within_intervals intervals X"
    unfolding within_intervals_def list_all2_conv_all_nth
  proof (intro conjI allI impI)
    show "length intervals = length X" using lenX by simp
  next
    fix k assume k: "k < length intervals"
    with srt lenX show "sorted_wrt (<) (X ! k)" by (simp add: list_all_length)
    from leX k lenX have "set (X ! k) \<subseteq> set (X0 ! k)" by (simp add: conj_le_def)
    with init k have "set (X ! k) \<subseteq> {fst (intervals ! k) .. snd (intervals ! k)}" by simp
    then show "list_all (\<lambda>c. fst (intervals ! k) \<le> c \<and> c \<le> snd (intervals ! k)) (X ! k)"
      by (auto simp: list_all_iff)
  qed
  have c3: "is_consistent X datapoints horn_constraints \<and>
            (\<forall>k < length intervals. set (H ! k) \<subseteq> set (X ! k))"
    if H: "within_intervals intervals H" and cons: "is_consistent H datapoints horn_constraints"
  proof -
    have le0: "conj_le H X0" using within_intervals_le[OF H X0] .
    have Hpos: "\<forall>dp \<in> set ?pos. satisfies dp (H ! loc_id dp)"
      using cons by (auto simp: is_consistent_iff positive_datapoints_def)
    have Hhorn: "\<forall>hc \<in> set horn_constraints. horn_ok H hc"
      using cons by (simp add: is_consistent_iff)
    have le: "conj_le H X"
      using loop_upper[OF le0 Hpos Hhorn] loop by simp
    have "satisfies dp (X ! loc_id dp) = classification dp"
      if dp: "dp \<in> set datapoints" "is_classified dp" for dp
    proof (cases "classification dp")
      case True
      with dp have "dp \<in> set ?pos" by (simp add: positive_datapoints_def)
      with sound(1) True show ?thesis by simp
    next
      case False
      from wf dp(1) have k: "loc_id dp < length X"
        by (simp add: wf_sample_def list_all_iff wf_datapoint_def lenX)
      from cons dp False have "\<not> satisfies dp (H ! loc_id dp)"
        by (simp add: is_consistent_iff)
      with conj_le_satisfies[OF le k] False show ?thesis by auto
    qed
    with sound(2) have "is_consistent X datapoints horn_constraints"
      by (simp add: is_consistent_iff)
    moreover from le lenX have "\<forall>k < length intervals. set (H ! k) \<subseteq> set (X ! k)"
      by (simp add: conj_le_def)
    ultimately show ?thesis by simp
  qed
  from c1 c2 c3 show ?thesis by blast
qed

lemmas scenario_defs = positive_dp_def negative_dp_def unlabeled_dp_def loc_id_def
  S1_datapoints_def S2_datapoints_def S4_datapoints_def S4_horn_constraints_def

lemmas horndini_eval = horndini_def horndini_core_def fill_interval.simps knock_out_def
  horndini_loop.simps

theorem horndini_greatest_witness:
  "is_consistent [[0, 1, 2, 3]] (positive_datapoints S2_datapoints) [] \<and>
   within_intervals [(0, 3)] [[0, 1, 2, 3]] \<and>
   within_intervals [(0, 3)] [[2]] \<and>
   is_consistent [[2]] S2_datapoints [] \<and>
   is_consistent [[0, 1, 2, 3]] S2_datapoints [] \<and>
   set ([[2]] ! 0) \<subseteq> set ([[0, 1, 2, 3 :: nat]] ! 0)"
proof -
  have h1: "horndini S2_datapoints [] [(0, 3)] = Some (Inr [[0, 1, 2, 3]])"
    by (simp add: horndini_eval scenario_defs)
  have h2: "wf_sample (length [(0 :: nat, 3 :: nat)]) 4 S2_datapoints []"
    by (simp add: wf_sample_def wf_datapoint_def scenario_defs)
  have h3: "list_all (\<lambda>iv. snd iv < 4) [(0 :: nat, 3 :: nat)]" by simp
  have h4: "within_intervals [(0, 3)] [[2]]" by (simp add: within_intervals_def)
  have h5: "is_consistent [[2]] S2_datapoints []"
    by (simp add: is_consistent_def scenario_defs)
  from horndini_greatest[OF h1 h2 h3, of "[[2]]"] h4 h5 show ?thesis by simp
qed

text \<open>
  Claim C2 as stated fails: on a sample with the single negative data point \<open>[1]\<close> and the
  interval \<open>(0, 0)\<close> Horndini returns \<open>X = {0}\<close>, which the negative data point satisfies, so
  \<open>is_consistent\<close> is false of \<open>X\<close>.
\<close>

theorem horndini_consistent_counterexample:
  "horndini [negative_dp [1]] [] [(0, 0)] = Some (Inr [[0]]) \<and>
   \<not> is_consistent [[0]] [negative_dp [1]] []"
  by (simp add: horndini_eval scenario_defs is_consistent_def)

text \<open>
  Claim C3. On a well-formed sample, Horndini throws \<^verbatim>\<open>"No consistent conjunction exists"\<close>
  exactly when some Horn constraint with conclusion \<open>\<bottom>\<close> has all its premises discharged,
  that is, satisfied by the conjunctions the run has reached when it stops (the conjunctions
  are changed in place, so these are the ones the inner \<^verbatim>\<open>horndini\<close> leaves behind). On
  scenario S4, the positive data point \<open>[1,1,0,0]\<close> with the constraint \<open>{that point} \<Rightarrow> \<bottom>\<close>,
  Horndini throws.
\<close>

theorem horndini_inconsistent_iff:
  assumes ne: "intervals \<noteq> []"
    and X0: "initial_conjunctions intervals = Some X0"
    and wf: "wf_sample (length intervals) P datapoints horn_constraints"
  shows "(horndini datapoints horn_constraints intervals =
            Some (Inl (RuntimeError ''No consistent conjunction exists'')) \<longleftrightarrow>
          (\<exists>hc \<in> set horn_constraints. hc_conclusion hc = None \<and>
             lhs_satisfied (fst (horndini_core datapoints horn_constraints X0)) (hc_premises hc))) \<and>
         horndini S4_datapoints S4_horn_constraints [(0, 3)] =
            Some (Inl (RuntimeError ''No consistent conjunction exists''))"
proof -
  let ?pos = "positive_datapoints datapoints"
  let ?run = "horndini_loop X0 ?pos horn_constraints"
  let ?inc = "RuntimeError ''No consistent conjunction exists''"
  have core: "horndini_core datapoints horn_constraints X0 = ?run"
    by (simp add: horndini_core_def positive_datapoints_def)
  have wrap: "horndini datapoints horn_constraints intervals = Some (Inl ?inc) \<longleftrightarrow>
      snd ?run = Some ?inc"
    using ne X0 core by (cases ?run) (auto simp: horndini_def split: option.splits)
  have len: "length X0 = length intervals" using initial_conjunctions_Some[OF X0] by simp
  have no_assert: "snd ?run \<noteq> Some AssertionFailed"
  proof (rule loop_no_assert)
    show "\<forall>dp \<in> set ?pos. loc_id dp < length X0"
      using wf len by (simp add: wf_sample_def list_all_iff wf_datapoint_def positive_datapoints_def)
    show "\<forall>hc \<in> set horn_constraints. (\<forall>p \<in> set (hc_premises hc). loc_id p < length X0) \<and>
           (\<forall>c. hc_conclusion hc = Some c \<longrightarrow> loc_id c < length X0)"
      using wf len
      by (auto simp: wf_sample_def list_all_iff wf_horn_constraint_def wf_datapoint_def)
  qed
  have "snd ?run = Some ?inc \<longleftrightarrow>
      (\<exists>hc \<in> set horn_constraints. hc_conclusion hc = None \<and>
         lhs_satisfied (fst ?run) (hc_premises hc))" (is "?L \<longleftrightarrow> ?R")
  proof
    assume ?L
    from loop_error[OF this] show ?R by simp
  next
    assume R: ?R
    then obtain hc where hc: "hc \<in> set horn_constraints" "hc_conclusion hc = None"
      "lhs_satisfied (fst ?run) (hc_premises hc)" by auto
    show ?L
    proof (cases "snd ?run")
      case None
      from loop_sound[OF None] hc(1) have "horn_ok (fst ?run) hc" by simp
      with hc(2,3) show ?thesis by (simp add: horn_ok_def conclusion_satisfied_def)
    next
      case (Some e)
      from loop_error[OF Some] no_assert Some show ?thesis by auto
    qed
  qed
  moreover have "horndini S4_datapoints S4_horn_constraints [(0, 3)] = Some (Inl ?inc)"
    by (simp add: horndini_eval scenario_defs)
  ultimately show ?thesis using wrap core by simp
qed

theorem horndini_inconsistent_iff_witness:
  "horndini S4_datapoints S4_horn_constraints [(0, 3)] =
     Some (Inl (RuntimeError ''No consistent conjunction exists'')) \<and>
   hc_conclusion (S4_horn_constraints ! 0) = None \<and>
   lhs_satisfied (fst (horndini_core S4_datapoints S4_horn_constraints [[0, 1, 2, 3]]))
     (hc_premises (S4_horn_constraints ! 0))"
proof -
  have h1: "[(0 :: nat, 3 :: nat)] \<noteq> []" by simp
  have h2: "initial_conjunctions [(0, 3)] = Some [[0, 1, 2, 3]]"
    by (simp add: fill_interval.simps)
  have h3: "wf_sample (length [(0 :: nat, 3 :: nat)]) 4 S4_datapoints S4_horn_constraints"
    by (simp add: wf_sample_def wf_datapoint_def wf_horn_constraint_def scenario_defs)
  have "hc_conclusion (S4_horn_constraints ! 0) = None \<and>
   lhs_satisfied (fst (horndini_core S4_datapoints S4_horn_constraints [[0, 1, 2, 3]]))
     (hc_premises (S4_horn_constraints ! 0))"
    by (simp add: horndini_eval scenario_defs)
  with horndini_inconsistent_iff[OF h1 h2 h3] show ?thesis by simp
qed

subsection \<open>The Sorcar reducers only add predicates\<close>

lemma assert_fails_holds [simp]: "c \<Longrightarrow> \<not> assert_fails b c"
  by (simp add: assert_fails_def)

lemma assert_fails_NDEBUG [simp]: "\<not> assert_fails NDEBUG c"
  by (simp add: assert_fails_def)

lemma assert_fails_Debug [simp]: "assert_fails Debug c \<longleftrightarrow> \<not> c"
  by (simp add: assert_fails_def)

lemma prepare_sets_start:
  assumes "length R = length X" "list_all (sorted_wrt (<)) X" "list_all (sorted_wrt (<)) R"
  shows "length (fst (prepare_sets X R (replicate (length X) []))) = length X"
    and "k < length X \<Longrightarrow>
      set (fst (prepare_sets X R (replicate (length X) [])) ! k) = set (R ! k) \<inter> set (X ! k)"
proof -
  have lm: "length (replicate (length X) ([]::conjunction)) = length X" by simp
  show "length (fst (prepare_sets X R (replicate (length X) []))) = length X"
  proof (cases "X = []")
    case True
    then show ?thesis using assms(1) by (simp add: prepare_sets_def)
  next
    case False
    then have "0 < length X" by simp
    from prepare_sets_nth(3)[OF assms(1) lm this] show ?thesis .
  qed
  assume k: "k < length X"
  have sx: "sorted_wrt (<) (X ! k)" using assms(2) k by (simp add: list_all_length)
  have sr: "sorted_wrt (<) (R ! k)" using assms(1,3) k by (simp add: list_all_length)
  from prepare_sets_nth(1)[OF assms(1) lm k] prepare_walk_sets[OF sx sr, of "[]"] k
  show "set (fst (prepare_sets X R (replicate (length X) [])) ! k) = set (R ! k) \<inter> set (X ! k)"
    by simp
qed

lemma conj_le_update:
  "set (R ! k) \<subseteq> set r' \<Longrightarrow> conj_le R (R[k := r'])"
proof (cases "k < length R")
  case True
  assume "set (R ! k) \<subseteq> set r'"
  with True show ?thesis by (auto simp: conj_le_def nth_list_update)
next
  case False
  then have "R[k := r'] = R" by (simp add: not_less list_update_beyond)
  then show ?thesis by simp
qed

lemma move_zeros_grows: "set r \<subseteq> set (fst (move_zeros dp ps r))"
proof (induction ps arbitrary: r)
  case Nil
  then show ?case by simp
next
  case (Cons p ps)
  show ?case
  proof (cases "int_data dp ! p = 0")
    case True
    have "set r \<subseteq> set (set_insert p r)" by auto
    also have "\<dots> \<subseteq> set (fst (move_zeros dp ps (set_insert p r)))" by (rule Cons.IH)
    finally show ?thesis using True by simp
  next
    case False
    with Cons.IH[of r] show ?thesis by (simp add: case_prod_beta)
  qed
qed

lemma add_all_grows: "conj_le (fst st) (fst (add_all dp st))"
proof -
  obtain R M where st: "st = (R, M)" by (cases st)
  have "fst (add_all dp st) = R[loc_id dp := fst (move_zeros dp (M ! loc_id dp) (R ! loc_id dp))]"
    by (simp add: st add_all_def Let_def case_prod_beta)
  with move_zeros_grows[of "R ! loc_id dp" dp "M ! loc_id dp"] st show ?thesis
    by (simp add: conj_le_update)
qed

lemma fold_add_all_grows: "conj_le (fst st) (fst (fold add_all dps st))"
proof (induction dps arbitrary: st)
  case Nil
  then show ?case by simp
next
  case (Cons dp dps)
  from add_all_grows[of st dp] Cons.IH[of "add_all dp st"] show ?case
    by (auto intro: conj_le_trans)
qed

lemma negative_all_grows:
  "negative_all b X dps st = Inr st' \<Longrightarrow> conj_le (fst st) (fst st')"
proof (induction dps arbitrary: st)
  case Nil
  then show ?case by simp
next
  case (Cons dp dps)
  show ?case
  proof (cases "is_classified dp \<and> \<not> classification dp \<and> satisfies dp (fst st ! loc_id dp)")
    case True
    with Cons.prems have "negative_all b X dps (add_all dp st) = Inr st'"
      by (simp add: Let_def split: if_splits)
    from Cons.IH[OF this] add_all_grows[of st dp] show ?thesis by (auto intro: conj_le_trans)
  next
    case False
    with Cons.prems have "negative_all b X dps st = Inr st'"
      by (auto simp: Let_def split: if_splits)
    from Cons.IH[OF this] show ?thesis .
  qed
qed

lemma scan_all_grows:
  "scan_all b hcs st = Inr (hcs', st', flag) \<Longrightarrow> conj_le (fst st) (fst st')"
proof (induction hcs arbitrary: st hcs' st' flag)
  case Nil
  then show ?case by simp
next
  case (Cons hc hcs)
  from Cons.prems obtain lhs where l: "lhs_satisfied_asserting b (fst st) (hc_premises hc) = Inr lhs"
    by (auto split: sum.splits)
  show ?case
  proof (cases lhs)
    case False
    with Cons.prems l have "scan_all b hcs st = Inr (hcs', st', flag)" by simp
    from Cons.IH[OF this] show ?thesis .
  next
    case True
    show ?thesis
    proof (cases "conclusion_satisfied (fst st) hc")
      case sat: True
      with Cons.prems l True obtain hcs1 where s: "scan_all b hcs st = Inr (hcs1, st', flag)"
        by (auto split: sum.splits prod.splits)
      from Cons.IH[OF s] show ?thesis .
    next
      case unsat: False
      with Cons.prems l True obtain flag1 where
        s: "scan_all b hcs (fold add_all (hc_premises hc) st) = Inr (hcs', st', flag1)"
        by (auto split: sum.splits prod.splits)
      from Cons.IH[OF s] fold_add_all_grows[of st "hc_premises hc"] show ?thesis
        by (auto intro: conj_le_trans)
    qed
  qed
qed

declare horn_loop_all.simps [simp del] horn_loop_first.simps [simp del]

lemma horn_loop_all_grows:
  "horn_loop_all b hcs st = Inr st' \<Longrightarrow> conj_le (fst st) (fst st')"
proof (induction b hcs st rule: horn_loop_all.induct)
  case (1 b hcs st)
  from "1.prems" obtain hcs1 st1 flag where s: "scan_all b hcs st = Inr (hcs1, st1, flag)"
    by (subst (asm) horn_loop_all.simps) (auto split: sum.splits)
  note g = scan_all_grows[OF s]
  show ?case
  proof (cases flag)
    case True
    with "1.prems" s have "st' = st1" by (subst (asm) horn_loop_all.simps) simp
    with g show ?thesis by simp
  next
    case False
    with "1.prems" s have r: "horn_loop_all b hcs1 st1 = Inr st'"
      by (subst (asm) horn_loop_all.simps) simp
    from "1.IH"[OF s refl refl False r] g show ?thesis by (auto intro: conj_le_trans)
  qed
qed

lemma move_first_zero_grows: "set r \<subseteq> set (fst (move_first_zero dp ps r))"
proof (induction ps)
  case Nil
  then show ?case by simp
next
  case (Cons p ps)
  then show ?case by (auto simp: case_prod_beta)
qed

lemma add_first_grows: "conj_le (fst st) (fst (fst (add_first dp st)))"
proof -
  obtain R M where st: "st = (R, M)" by (cases st)
  have "fst (fst (add_first dp st)) =
      R[loc_id dp := fst (move_first_zero dp (M ! loc_id dp) (R ! loc_id dp))]"
    by (simp add: st add_first_def Let_def case_prod_beta)
  with move_first_zero_grows[of "R ! loc_id dp" dp "M ! loc_id dp"] st show ?thesis
    by (simp add: conj_le_update)
qed

lemma add_first_premise_grows: "conj_le (fst st) (fst (fst (add_first_premise dps st)))"
proof (induction dps arbitrary: st)
  case Nil
  then show ?case by simp
next
  case (Cons dp dps)
  obtain st1 added where a: "add_first dp st = (st1, added)" by (cases "add_first dp st")
  from add_first_grows[of st dp] a have g: "conj_le (fst st) (fst st1)" by simp
  show ?case
  proof (cases added)
    case True
    with a g show ?thesis by simp
  next
    case False
    with a g Cons.IH[of st1] show ?thesis by (auto intro: conj_le_trans)
  qed
qed

lemma negative_first_grows:
  "negative_first b dps st = Inr st' \<Longrightarrow> conj_le (fst st) (fst st')"
proof (induction dps arbitrary: st)
  case Nil
  then show ?case by simp
next
  case (Cons dp dps)
  show ?case
  proof (cases "is_classified dp \<and> \<not> classification dp \<and> satisfies dp (fst st ! loc_id dp)")
    case True
    with Cons.prems have "negative_first b dps (fst (add_first dp st)) = Inr st'"
      by (simp add: Let_def split: if_splits)
    from Cons.IH[OF this] add_first_grows[of st dp] show ?thesis by (auto intro: conj_le_trans)
  next
    case False
    with Cons.prems have "negative_first b dps st = Inr st'"
      by (auto simp: Let_def split: if_splits)
    from Cons.IH[OF this] show ?thesis .
  qed
qed

lemma scan_first_grows:
  "scan_first b hcs st = Inr (hcs', st', flag) \<Longrightarrow> conj_le (fst st) (fst st')"
proof (induction hcs arbitrary: st hcs' st' flag)
  case Nil
  then show ?case by simp
next
  case (Cons hc hcs)
  from Cons.prems obtain lhs where l: "lhs_satisfied_asserting b (fst st) (hc_premises hc) = Inr lhs"
    by (auto split: sum.splits)
  show ?case
  proof (cases lhs)
    case False
    with Cons.prems l have "scan_first b hcs st = Inr (hcs', st', flag)" by simp
    from Cons.IH[OF this] show ?thesis .
  next
    case True
    show ?thesis
    proof (cases "conclusion_satisfied (fst st) hc")
      case sat: True
      with Cons.prems l True obtain hcs1 where s: "scan_first b hcs st = Inr (hcs1, st', flag)"
        by (auto split: sum.splits prod.splits)
      from Cons.IH[OF s] show ?thesis .
    next
      case unsat: False
      obtain st1 added where a: "add_first_premise (hc_premises hc) st = (st1, added)"
        by (cases "add_first_premise (hc_premises hc) st")
      with Cons.prems l True unsat obtain flag1 where
        s: "scan_first b hcs st1 = Inr (hcs', st', flag1)"
        by (auto split: sum.splits prod.splits if_splits)
      from add_first_premise_grows[of st "hc_premises hc"] a have "conj_le (fst st) (fst st1)"
        by simp
      with Cons.IH[OF s] show ?thesis by (auto intro: conj_le_trans)
    qed
  qed
qed

lemma horn_loop_first_grows:
  "horn_loop_first b hcs st = Inr st' \<Longrightarrow> conj_le (fst st) (fst st')"
proof (induction b hcs st rule: horn_loop_first.induct)
  case (1 b hcs st)
  from "1.prems" obtain hcs1 st1 flag where s: "scan_first b hcs st = Inr (hcs1, st1, flag)"
    by (subst (asm) horn_loop_first.simps) (auto split: sum.splits)
  note g = scan_first_grows[OF s]
  show ?case
  proof (cases flag)
    case True
    with "1.prems" s have "st' = st1" by (subst (asm) horn_loop_first.simps) simp
    with g show ?thesis by simp
  next
    case False
    with "1.prems" s have r: "horn_loop_first b hcs1 st1 = Inr st'"
      by (subst (asm) horn_loop_first.simps) simp
    from "1.IH"[OF s refl refl False r] g show ?thesis by (auto intro: conj_le_trans)
  qed
qed

lemma add_relevant_grows: "conj_le (fst st) (fst (add_relevant prs st))"
proof (induction prs arbitrary: st)
  case Nil
  then show ?case by simp
next
  case (Cons pr prs)
  let ?st1 = "((fst st)[fst pr := set_insert (snd pr) (fst st ! fst pr)],
        (snd st)[fst pr := filter (\<lambda>q. q \<noteq> snd pr) (snd st ! fst pr)])"
  have "conj_le (fst st) (fst ?st1)" by (auto intro: conj_le_update)
  with Cons.IH[of ?st1] show ?case by (auto intro: conj_le_trans)
qed

lemma greedy_round_grows:
  "greedy_round b horns gs = Inr (gs', d) \<Longrightarrow> conj_le (fst (fst gs)) (fst (fst gs'))"
  using add_relevant_grows[of "fst gs"]
  by (auto simp: greedy_round_def split: sum.splits prod.splits if_splits)

lemma greedy_loop_grows_aux:
  assumes "greedy_loop b horns gs = Some r"
  shows "\<forall>gs'. r = Inr gs' \<longrightarrow> conj_le (fst (fst gs)) (fst (fst gs'))"
proof (rule greedy_loop.raw_induct[where P = "\<lambda>b horns gs r. \<forall>gs'. r = Inr gs' \<longrightarrow> conj_le (fst (fst gs)) (fst (fst gs'))",
      OF _ assms])
  fix f :: "build \<Rightarrow> horn_constraint list \<Rightarrow> greedy_state \<Rightarrow> (error + greedy_state) option"
    and b horns gs r
  assume IH: "\<And>b horns gs r. f b horns gs = Some r \<Longrightarrow>
      \<forall>gs'. r = Inr gs' \<longrightarrow> conj_le (fst (fst gs)) (fst (fst gs'))"
    and eq: "(case greedy_round b horns gs of Inl e \<Rightarrow> Some (Inl e)
       | Inr r \<Rightarrow> if snd r then Some (Inr (fst r)) else f b horns (fst r)) = Some r"
  show "\<forall>gs'. r = Inr gs' \<longrightarrow> conj_le (fst (fst gs)) (fst (fst gs'))"
  proof (intro allI impI)
    fix gs' assume r: "r = Inr gs'"
    with eq obtain gs1 d where g: "greedy_round b horns gs = Inr (gs1, d)"
      by (cases "greedy_round b horns gs") auto
    note gr = greedy_round_grows[OF g]
    show "conj_le (fst (fst gs)) (fst (fst gs'))"
    proof (cases d)
      case True
      with eq g r have "gs' = gs1" by simp
      with gr show ?thesis by simp
    next
      case False
      with eq g have "f b horns gs1 = Some r" by simp
      from IH[OF this] r have "conj_le (fst (fst gs1)) (fst (fst gs'))" by simp
      with gr show ?thesis by (auto intro: conj_le_trans)
    qed
  qed
qed

lemma greedy_loop_grows:
  "greedy_loop b horns gs = Some (Inr gs') \<Longrightarrow> conj_le (fst (fst gs)) (fst (fst gs'))"
  using greedy_loop_grows_aux by blast

subsection \<open>The reducers all and first on a consistent \<open>X\<close>\<close>

text \<open>
  The assertions inside the reducers all and first are not what makes them return a
  consistent \<open>R\<close>: when \<open>X\<close> is consistent with a well-formed sample, as Horndini's result is
  asserted to be in \<^verbatim>\<open>main\<close>, no assertion fails, and the result is consistent in a build
  without assertions as well. The state stays a partition of \<open>X\<close>, every
  negative data point that satisfies \<open>R\<close> and every Horn constraint that is not satisfied
  has a predicate in \<open>X_minus_R\<close> that repairs it, and \<open>R\<close> only grows, so that what has been
  repaired stays repaired.
\<close>

lemma not_satisfies_mono: "set C \<subseteq> set C' \<Longrightarrow> \<not> satisfies dp C \<Longrightarrow> \<not> satisfies dp C'"
  by (auto simp: satisfies_iff)

lemma length_set_insert:
  "sorted_wrt (<) r \<Longrightarrow> length (set_insert p r) = (if p \<in> set r then length r else Suc (length r))"
  by (induction r) auto

lemma move_zeros_sets:
  "set (fst (move_zeros dp ps r)) = set r \<union> {p \<in> set ps. int_data dp ! p = 0} \<and>
   snd (move_zeros dp ps r) = filter (\<lambda>p. int_data dp ! p \<noteq> 0) ps"
proof (induction ps arbitrary: r)
  case Nil
  then show ?case by simp
next
  case (Cons p ps)
  show ?case
  proof (cases "int_data dp ! p = 0")
    case True
    with Cons.IH[of "set_insert p r"] show ?thesis by auto
  next
    case False
    with Cons.IH[of r] show ?thesis by (auto simp: case_prod_beta)
  qed
qed

lemma move_zeros_sorted:
  "sorted_wrt (<) r \<Longrightarrow> sorted_wrt (<) (fst (move_zeros dp ps r))"
proof (induction ps arbitrary: r)
  case Nil
  then show ?case by simp
next
  case (Cons p ps)
  show ?case
  proof (cases "int_data dp ! p = 0")
    case True
    with Cons.IH[of "set_insert p r"] Cons.prems show ?thesis by simp
  next
    case False
    with Cons.IH[of r] Cons.prems show ?thesis by (simp add: case_prod_beta)
  qed
qed

lemma move_first_zero_sets:
  assumes "distinct ps"
  shows "(snd (snd (move_first_zero dp ps r)) \<longleftrightarrow> (\<exists>p \<in> set ps. int_data dp ! p = 0)) \<and>
   (\<exists>q. (snd (snd (move_first_zero dp ps r)) \<longrightarrow>
           q \<in> set ps \<and> int_data dp ! q = 0 \<and>
           set (fst (move_first_zero dp ps r)) = insert q (set r) \<and>
           set (fst (snd (move_first_zero dp ps r))) = set ps - {q} \<and>
           fst (move_first_zero dp ps r) = set_insert q r) \<and>
        (\<not> snd (snd (move_first_zero dp ps r)) \<longrightarrow>
           fst (move_first_zero dp ps r) = r \<and> fst (snd (move_first_zero dp ps r)) = ps))"
  using assms
proof (induction ps)
  case Nil
  then show ?case by simp
next
  case (Cons p ps)
  show ?case
  proof (cases "int_data dp ! p = 0")
    case True
    with Cons.prems show ?thesis by (auto intro!: exI[of _ p])
  next
    case False
    from Cons.prems have d: "distinct ps" and np: "p \<notin> set ps" by simp_all
    from Cons.IH[OF d] obtain q where
      q1: "snd (snd (move_first_zero dp ps r)) \<longleftrightarrow> (\<exists>p \<in> set ps. int_data dp ! p = 0)"
      and q2: "snd (snd (move_first_zero dp ps r)) \<longrightarrow>
           q \<in> set ps \<and> int_data dp ! q = 0 \<and>
           set (fst (move_first_zero dp ps r)) = insert q (set r) \<and>
           set (fst (snd (move_first_zero dp ps r))) = set ps - {q} \<and>
           fst (move_first_zero dp ps r) = set_insert q r"
      and q3: "\<not> snd (snd (move_first_zero dp ps r)) \<longrightarrow>
           fst (move_first_zero dp ps r) = r \<and> fst (snd (move_first_zero dp ps r)) = ps"
      by blast
    have e: "move_first_zero dp (p # ps) r =
        (fst (move_first_zero dp ps r), p # fst (snd (move_first_zero dp ps r)),
         snd (snd (move_first_zero dp ps r)))"
      using False by (simp add: case_prod_beta)
    show ?thesis unfolding e using q1 q2 q3 False np
      by (intro conjI exI[of _ q]) auto
  qed
qed

lemma move_first_zero_sorted:
  "sorted_wrt (<) ps \<Longrightarrow> sorted_wrt (<) (fst (snd (move_first_zero dp ps r)))"
proof (induction ps)
  case Nil
  then show ?case by simp
next
  case (Cons p ps)
  have sub: "set (fst (snd (move_first_zero dp ps r))) \<subseteq> set ps" for ps
    by (induction ps) (auto simp: case_prod_beta)
  from Cons sub[of ps] show ?case by (auto simp: case_prod_beta)
qed

lemma sorted_length_card: "sorted_wrt (<) (xs :: nat list) \<Longrightarrow> length xs = card (set xs)"
  by (simp add: distinct_card strict_sorted_iff)

lemma partitioned_le: "partitioned X st \<Longrightarrow> conj_le (fst st) X"
  by (auto simp: partitioned_def conj_le_def)

lemma partitionedD:
  assumes "partitioned X st" "k < length X"
  shows "sorted_wrt (<) (fst st ! k)" "sorted_wrt (<) (snd st ! k)"
    "set (fst st ! k) \<inter> set (snd st ! k) = {}"
    "set (fst st ! k) \<union> set (snd st ! k) = set (X ! k)"
    "length (fst st) = length X" "length (snd st) = length X"
  using assms by (simp_all add: partitioned_def)

lemma partitioned_update:
  assumes p: "partitioned X (R, M)" and k: "k < length X"
    and s: "sorted_wrt (<) r'" "sorted_wrt (<) m'"
    and d: "set r' \<inter> set m' = {}" and u: "set r' \<union> set m' = set (X ! k)"
  shows "partitioned X (R[k := r'], M[k := m'])"
  unfolding partitioned_def
proof (intro conjI allI impI)
  show "length (fst (R[k := r'], M[k := m'])) = length X" using p by (simp add: partitioned_def)
  show "length (snd (R[k := r'], M[k := m'])) = length X" using p by (simp add: partitioned_def)
next
  fix j assume j: "j < length X"
  have l: "length R = length X" "length M = length X" using p by (simp_all add: partitioned_def)
  note pj = partitionedD[OF p j]
  show "sorted_wrt (<) (fst (R[k := r'], M[k := m']) ! j)"
    using pj(1) s(1) l k j by (cases "j = k") simp_all
  show "sorted_wrt (<) (snd (R[k := r'], M[k := m']) ! j)"
    using pj(2) s(2) l k j by (cases "j = k") simp_all
  show "set (fst (R[k := r'], M[k := m']) ! j) \<inter> set (snd (R[k := r'], M[k := m']) ! j) = {}"
    using pj(3) d l k j by (cases "j = k") simp_all
  show "set (fst (R[k := r'], M[k := m']) ! j) \<union> set (snd (R[k := r'], M[k := m']) ! j) = set (X ! j)"
    using pj(4) u l k j by (cases "j = k") simp_all
qed

lemma add_all_eq:
  "add_all dp (R, M) =
     (R[loc_id dp := fst (move_zeros dp (M ! loc_id dp) (R ! loc_id dp))],
      M[loc_id dp := filter (\<lambda>p. int_data dp ! p \<noteq> 0) (M ! loc_id dp)])"
  using move_zeros_sets[of dp "M ! loc_id dp" "R ! loc_id dp"]
  by (simp add: add_all_def Let_def case_prod_beta)

lemma add_all_partitioned:
  assumes p: "partitioned X st" and k: "loc_id dp < length X"
  shows "partitioned X (add_all dp st)"
proof -
  obtain R M where st: "st = (R, M)" by (cases st)
  note pk = partitionedD[OF p[unfolded st] k]
  let ?r = "fst (move_zeros dp (M ! loc_id dp) (R ! loc_id dp))"
  let ?m = "filter (\<lambda>p. int_data dp ! p \<noteq> 0) (M ! loc_id dp)"
  have rs: "set ?r = set (R ! loc_id dp) \<union> {p \<in> set (M ! loc_id dp). int_data dp ! p = 0}"
    using move_zeros_sets[of dp "M ! loc_id dp" "R ! loc_id dp"] by simp
  have "partitioned X (R[loc_id dp := ?r], M[loc_id dp := ?m])"
  proof (rule partitioned_update[OF p[unfolded st] k])
    show "sorted_wrt (<) ?r" using pk(1) by (simp add: move_zeros_sorted)
    show "sorted_wrt (<) ?m" using pk(2) by (simp add: sorted_wrt_filter)
    show "set ?r \<inter> set ?m = {}" using rs pk(3) by auto
    show "set ?r \<union> set ?m = set (X ! loc_id dp)" using rs pk(4) by auto
  qed
  then show ?thesis by (simp add: st add_all_eq)
qed

lemma add_all_falsifies:
  assumes p: "partitioned X st" and k: "loc_id dp < length X"
    and nx: "\<not> satisfies dp (X ! loc_id dp)"
  shows "\<not> satisfies dp (fst (add_all dp st) ! loc_id dp)"
proof -
  obtain R M where st: "st = (R, M)" by (cases st)
  note pk = partitionedD[OF p[unfolded st] k]
  from nx obtain q where q: "q \<in> set (X ! loc_id dp)" "int_data dp ! q = 0"
    by (auto simp: satisfies_iff)
  let ?r = "fst (move_zeros dp (M ! loc_id dp) (R ! loc_id dp))"
  have rs: "set ?r = set (R ! loc_id dp) \<union> {p \<in> set (M ! loc_id dp). int_data dp ! p = 0}"
    using move_zeros_sets[of dp "M ! loc_id dp" "R ! loc_id dp"] by simp
  from q pk(4) have "q \<in> set ?r" unfolding rs by auto
  with q(2) have "\<not> satisfies dp ?r" by (auto simp: satisfies_iff)
  moreover have "fst (add_all dp st) ! loc_id dp = ?r"
    using k pk(5) by (simp add: st add_all_eq)
  ultimately show ?thesis by simp
qed

lemma add_all_size:
  assumes p: "partitioned X st" and k: "loc_id dp < length X"
    and nx: "\<not> satisfies dp (X ! loc_id dp)" and r: "satisfies dp (fst st ! loc_id dp)"
  shows "length (fst st ! loc_id dp) < length (fst (add_all dp st) ! loc_id dp)"
proof -
  note p' = add_all_partitioned[OF p k]
  have s1: "sorted_wrt (<) (fst st ! loc_id dp)" using partitionedD(1)[OF p k] .
  have s2: "sorted_wrt (<) (fst (add_all dp st) ! loc_id dp)" using partitionedD(1)[OF p' k] .
  have sub: "set (fst st ! loc_id dp) \<subseteq> set (fst (add_all dp st) ! loc_id dp)"
    using add_all_grows[of st dp] k partitionedD(5)[OF p k] by (simp add: conj_le_def)
  have "set (fst st ! loc_id dp) \<noteq> set (fst (add_all dp st) ! loc_id dp)"
    using add_all_falsifies[OF p k nx] r by (auto simp: satisfies_iff)
  with sub have "set (fst st ! loc_id dp) \<subset> set (fst (add_all dp st) ! loc_id dp)" by blast
  then have "card (set (fst st ! loc_id dp)) < card (set (fst (add_all dp st) ! loc_id dp))"
    by (intro psubset_card_mono) simp_all
  with s1 s2 show ?thesis by (simp add: sorted_length_card)
qed

lemma still_falsified:
  assumes "conj_le R R'" "k < length R" "\<not> satisfies dp (R ! k)"
  shows "\<not> satisfies dp (R' ! k)"
proof -
  from assms(1,2) have "set (R ! k) \<subseteq> set (R' ! k)" by (simp add: conj_le_def)
  from not_satisfies_mono[OF this assms(3)] show ?thesis .
qed

lemma negative_all_ok:
  assumes "partitioned X st"
    and "\<forall>dp \<in> set dps. loc_id dp < length X"
    and "\<forall>dp \<in> set dps. is_classified dp \<and> \<not> classification dp \<longrightarrow>
           \<not> satisfies dp (X ! loc_id dp)"
  shows "\<exists>st'. negative_all b X dps st = Inr st' \<and> partitioned X st' \<and>
           (\<forall>dp \<in> set dps. is_classified dp \<and> \<not> classification dp \<longrightarrow>
              \<not> satisfies dp (fst st' ! loc_id dp))"
  using assms
proof (induction dps arbitrary: st)
  case Nil
  then show ?case by simp
next
  case (Cons dp dps)
  from Cons.prems(2) have k: "loc_id dp < length X" by simp
  have len: "length (fst st) = length X" using partitionedD(5)[OF Cons.prems(1) k] .
  show ?case
  proof (cases "is_classified dp \<and> \<not> classification dp \<and> satisfies dp (fst st ! loc_id dp)")
    case True
    with Cons.prems(3) have nx: "\<not> satisfies dp (X ! loc_id dp)" by simp
    let ?st1 = "add_all dp st"
    have p1: "partitioned X ?st1" using add_all_partitioned[OF Cons.prems(1) k] .
    have sz: "length (fst st ! loc_id dp) < length (fst ?st1 ! loc_id dp)"
      using add_all_size[OF Cons.prems(1) k nx] True by simp
    have e: "negative_all b X (dp # dps) st = negative_all b X dps ?st1"
      using True nx sz k len by (simp add: Let_def)
    from Cons.IH[OF p1] Cons.prems(2,3) obtain st' where
      r: "negative_all b X dps ?st1 = Inr st'" and p': "partitioned X st'"
      and f: "\<forall>dp \<in> set dps. is_classified dp \<and> \<not> classification dp \<longrightarrow>
              \<not> satisfies dp (fst st' ! loc_id dp)" by auto
    have "\<not> satisfies dp (fst st' ! loc_id dp)"
    proof (rule still_falsified[OF negative_all_grows[OF r]])
      show "loc_id dp < length (fst ?st1)" using partitionedD(5)[OF p1 k] k by simp
      show "\<not> satisfies dp (fst ?st1 ! loc_id dp)"
        using add_all_falsifies[OF Cons.prems(1) k nx] .
    qed
    with e r p' f show ?thesis by simp
  next
    case False
    then have e: "negative_all b X (dp # dps) st = negative_all b X dps st"
      using k len by (auto simp: Let_def)
    from Cons.IH[OF Cons.prems(1)] Cons.prems(2,3) obtain st' where
      r: "negative_all b X dps st = Inr st'" and p': "partitioned X st'"
      and f: "\<forall>dp \<in> set dps. is_classified dp \<and> \<not> classification dp \<longrightarrow>
              \<not> satisfies dp (fst st' ! loc_id dp)" by auto
    have "\<not> satisfies dp (fst st' ! loc_id dp)"
      if "is_classified dp \<and> \<not> classification dp"
    proof (rule still_falsified[OF negative_all_grows[OF r]])
      show "loc_id dp < length (fst st)" using len k by simp
      show "\<not> satisfies dp (fst st ! loc_id dp)" using False that by simp
    qed
    with e r p' f show ?thesis by simp
  qed
qed

lemma lhs_satisfied_asserting_ok:
  "\<forall>p \<in> set ps. loc_id p < length R \<Longrightarrow>
     lhs_satisfied_asserting b R ps = Inr (lhs_satisfied R ps)"
  by (induction ps) auto

lemma lhs_vacuous_mono:
  assumes "conj_le R R'" "\<forall>p \<in> set ps. loc_id p < length R" "\<not> lhs_satisfied R ps"
  shows "\<not> lhs_satisfied R' ps"
proof -
  from assms(3) obtain p where p: "p \<in> set ps" "\<not> satisfies p (R ! loc_id p)"
    by (auto simp: lhs_satisfied_iff)
  with assms(2) have "loc_id p < length R" by simp
  from still_falsified[OF assms(1) this p(2)] p(1) show ?thesis
    by (auto simp: lhs_satisfied_iff)
qed

lemma fold_add_all_ok:
  assumes "partitioned X st" "\<forall>p \<in> set ps. loc_id p < length X"
  shows "partitioned X (fold add_all ps st) \<and>
         (\<forall>p \<in> set ps. \<not> satisfies p (X ! loc_id p) \<longrightarrow>
            \<not> satisfies p (fst (fold add_all ps st) ! loc_id p))"
  using assms
proof (induction ps arbitrary: st)
  case Nil
  then show ?case by simp
next
  case (Cons q ps)
  from Cons.prems(2) have k: "loc_id q < length X" by simp
  let ?st1 = "add_all q st"
  have p1: "partitioned X ?st1" using add_all_partitioned[OF Cons.prems(1) k] .
  from Cons.IH[OF p1] Cons.prems(2) have ih1: "partitioned X (fold add_all ps ?st1)"
    and ih2: "\<forall>p \<in> set ps. \<not> satisfies p (X ! loc_id p) \<longrightarrow>
            \<not> satisfies p (fst (fold add_all ps ?st1) ! loc_id p)" by simp_all
  have "\<not> satisfies q (fst (fold add_all ps ?st1) ! loc_id q)"
    if nx: "\<not> satisfies q (X ! loc_id q)"
  proof (rule still_falsified[OF fold_add_all_grows])
    show "loc_id q < length (fst ?st1)" using partitionedD(5)[OF p1 k] k by simp
    show "\<not> satisfies q (fst ?st1 ! loc_id q)" using add_all_falsifies[OF Cons.prems(1) k nx] .
  qed
  with ih1 ih2 show ?case by auto
qed

lemma active_has_unsat_premise:
  assumes p: "partitioned X st" and ok: "horn_ok X hc"
    and lc: "\<forall>c. hc_conclusion hc = Some c \<longrightarrow> loc_id c < length X"
    and ns: "\<not> conclusion_satisfied (fst st) hc"
  shows "\<exists>q \<in> set (hc_premises hc). \<not> satisfies q (X ! loc_id q)"
proof (rule ccontr)
  assume "\<not> ?thesis"
  then have "lhs_satisfied X (hc_premises hc)" by (simp add: lhs_satisfied_iff)
  with ok have "conclusion_satisfied X hc" by (simp add: horn_ok_def)
  then obtain c where c: "hc_conclusion hc = Some c" "satisfies c (X ! loc_id c)"
    by (auto simp: conclusion_satisfied_def split: option.splits)
  with lc have "loc_id c < length X" by simp
  from conj_le_satisfies[OF partitioned_le[OF p] this c(2)] c(1) ns show False
    by (simp add: conclusion_satisfied_def)
qed

lemma scan_all_ok:
  assumes "partitioned X st"
    and "\<forall>hc \<in> set hcs. (\<forall>p \<in> set (hc_premises hc). loc_id p < length X) \<and>
           (\<forall>c. hc_conclusion hc = Some c \<longrightarrow> loc_id c < length X)"
    and "\<forall>hc \<in> set hcs. horn_ok X hc"
  shows "\<exists>hcs' st' flag. scan_all b hcs st = Inr (hcs', st', flag) \<and> partitioned X st' \<and>
           set hcs' \<subseteq> set hcs \<and>
           (\<forall>hc \<in> set hcs. hc \<in> set hcs' \<or> \<not> lhs_satisfied (fst st') (hc_premises hc)) \<and>
           (flag \<longrightarrow> st' = st \<and> (\<forall>hc \<in> set hcs'. horn_ok (fst st) hc))"
  using assms
proof (induction hcs arbitrary: st)
  case Nil
  then show ?case by (intro exI[of _ "[]"] exI[of _ st] exI[of _ True]) simp
next
  case (Cons hc hcs)
  from Cons.prems(2) have lp: "\<forall>p \<in> set (hc_premises hc). loc_id p < length X"
    and lc: "\<forall>c. hc_conclusion hc = Some c \<longrightarrow> loc_id c < length X" by simp_all
  have len: "length (fst st) = length X" using Cons.prems(1) by (simp add: partitioned_def)
  have l: "lhs_satisfied_asserting b (fst st) (hc_premises hc) =
      Inr (lhs_satisfied (fst st) (hc_premises hc))"
    using lhs_satisfied_asserting_ok[of "hc_premises hc" "fst st" b] lp len by simp
  have tl2: "\<forall>hc \<in> set hcs. (\<forall>p \<in> set (hc_premises hc). loc_id p < length X) \<and>
           (\<forall>c. hc_conclusion hc = Some c \<longrightarrow> loc_id c < length X)"
    and tl3: "\<forall>hc \<in> set hcs. horn_ok X hc" using Cons.prems(2,3) by simp_all
  show ?case
  proof (cases "lhs_satisfied (fst st) (hc_premises hc)")
    case False
    from Cons.IH[OF Cons.prems(1) tl2 tl3] obtain hcs' st' flag where
      r: "scan_all b hcs st = Inr (hcs', st', flag)" and p': "partitioned X st'"
      and sub: "set hcs' \<subseteq> set hcs"
      and vac: "\<forall>hc \<in> set hcs. hc \<in> set hcs' \<or> \<not> lhs_satisfied (fst st') (hc_premises hc)"
      and fl: "flag \<longrightarrow> st' = st \<and> (\<forall>hc \<in> set hcs'. horn_ok (fst st) hc)" by blast
    have e: "scan_all b (hc # hcs) st = Inr (hcs', st', flag)" using l False r by simp
    have "\<not> lhs_satisfied (fst st') (hc_premises hc)"
      using lhs_vacuous_mono[OF scan_all_grows[OF r] _ False] lp len by simp
    with e p' sub vac fl show ?thesis by auto
  next
    case True
    show ?thesis
    proof (cases "conclusion_satisfied (fst st) hc")
      case sat: True
      from Cons.IH[OF Cons.prems(1) tl2 tl3] obtain hcs' st' flag where
        r: "scan_all b hcs st = Inr (hcs', st', flag)" and p': "partitioned X st'"
        and sub: "set hcs' \<subseteq> set hcs"
        and vac: "\<forall>hc \<in> set hcs. hc \<in> set hcs' \<or> \<not> lhs_satisfied (fst st') (hc_premises hc)"
        and fl: "flag \<longrightarrow> st' = st \<and> (\<forall>hc \<in> set hcs'. horn_ok (fst st) hc)" by blast
      have e: "scan_all b (hc # hcs) st = Inr (hc # hcs', st', flag)" using l True sat r by simp
      have "horn_ok (fst st) hc" using sat by (simp add: horn_ok_def)
      with e p' sub vac fl show ?thesis by auto
    next
      case unsat: False
      let ?st1 = "fold add_all (hc_premises hc) st"
      from fold_add_all_ok[OF Cons.prems(1) lp] have p1: "partitioned X ?st1"
        and fa: "\<forall>p \<in> set (hc_premises hc). \<not> satisfies p (X ! loc_id p) \<longrightarrow>
            \<not> satisfies p (fst ?st1 ! loc_id p)" by simp_all
      from Cons.IH[OF p1 tl2 tl3] obtain hcs' st' flag where
        r: "scan_all b hcs ?st1 = Inr (hcs', st', flag)" and p': "partitioned X st'"
        and sub: "set hcs' \<subseteq> set hcs"
        and vac: "\<forall>hc \<in> set hcs. hc \<in> set hcs' \<or> \<not> lhs_satisfied (fst st') (hc_premises hc)"
        by blast
      have e: "scan_all b (hc # hcs) st = Inr (hcs', st', False)" using l True unsat r by simp
      have hok: "horn_ok X hc" using Cons.prems(3) by simp
      from active_has_unsat_premise[OF Cons.prems(1) hok lc unsat] fa
      have v1: "\<not> lhs_satisfied (fst ?st1) (hc_premises hc)" by (auto simp: lhs_satisfied_iff)
      have len1: "length (fst ?st1) = length X" using p1 by (simp add: partitioned_def)
      have "\<forall>p \<in> set (hc_premises hc). loc_id p < length (fst ?st1)" using lp len1 by simp
      from lhs_vacuous_mono[OF scan_all_grows[OF r] this v1]
      have "\<not> lhs_satisfied (fst st') (hc_premises hc)" .
      with e p' sub vac show ?thesis by auto
    qed
  qed
qed

lemma horn_ok_vacuous: "\<not> lhs_satisfied R (hc_premises hc) \<Longrightarrow> horn_ok R hc"
  by (simp add: horn_ok_def)

lemma horn_loop_all_ok:
  assumes "partitioned X st"
    and "\<forall>hc \<in> set hcs. (\<forall>p \<in> set (hc_premises hc). loc_id p < length X) \<and>
           (\<forall>c. hc_conclusion hc = Some c \<longrightarrow> loc_id c < length X)"
    and "\<forall>hc \<in> set hcs. horn_ok X hc"
  shows "\<exists>st'. horn_loop_all b hcs st = Inr st' \<and> partitioned X st' \<and>
           (\<forall>hc \<in> set hcs. horn_ok (fst st') hc)"
  using assms
proof (induction b hcs st rule: horn_loop_all.induct)
  case (1 b hcs st)
  from scan_all_ok[OF "1.prems"] obtain hcs1 st1 flag where
    r: "scan_all b hcs st = Inr (hcs1, st1, flag)" and p1: "partitioned X st1"
    and sub: "set hcs1 \<subseteq> set hcs"
    and vac: "\<forall>hc \<in> set hcs. hc \<in> set hcs1 \<or> \<not> lhs_satisfied (fst st1) (hc_premises hc)"
    and fl: "flag \<longrightarrow> st1 = st \<and> (\<forall>hc \<in> set hcs1. horn_ok (fst st) hc)" by blast
  show ?case
  proof (cases flag)
    case True
    with r have e: "horn_loop_all b hcs st = Inr st1" by (subst horn_loop_all.simps) simp
    from True fl vac have "\<forall>hc \<in> set hcs. horn_ok (fst st1) hc"
      by (auto intro: horn_ok_vacuous)
    with e p1 show ?thesis by simp
  next
    case False
    with r have e: "horn_loop_all b hcs st = horn_loop_all b hcs1 st1"
      by (subst horn_loop_all.simps) simp
    have a2: "\<forall>hc \<in> set hcs1. (\<forall>p \<in> set (hc_premises hc). loc_id p < length X) \<and>
           (\<forall>c. hc_conclusion hc = Some c \<longrightarrow> loc_id c < length X)"
      using "1.prems"(2) sub by blast
    have a3: "\<forall>hc \<in> set hcs1. horn_ok X hc" using "1.prems"(3) sub by blast
    from "1.IH"[OF r refl refl False p1 a2 a3] obtain st' where
      r': "horn_loop_all b hcs1 st1 = Inr st'" and p': "partitioned X st'"
      and ok: "\<forall>hc \<in> set hcs1. horn_ok (fst st') hc" by blast
    have len1: "length (fst st1) = length X" using p1 by (simp add: partitioned_def)
    have "horn_ok (fst st') hc" if hc: "hc \<in> set hcs" for hc
    proof (cases "hc \<in> set hcs1")
      case True
      with ok show ?thesis by simp
    next
      case False
      with vac hc have v: "\<not> lhs_satisfied (fst st1) (hc_premises hc)" by blast
      have "\<forall>p \<in> set (hc_premises hc). loc_id p < length (fst st1)"
        using "1.prems"(2) hc len1 by simp
      from lhs_vacuous_mono[OF horn_loop_all_grows[OF r'] this v] show ?thesis
        by (rule horn_ok_vacuous)
    qed
    with e r' p' show ?thesis by simp
  qed
qed

lemma prepare_sets_partitioned:
  assumes "length R = length X" "list_all (sorted_wrt (<)) X" "list_all (sorted_wrt (<)) R"
  shows "partitioned X (prepare_sets X R (replicate (length X) []))"
  unfolding partitioned_def
proof (intro conjI allI impI)
  let ?st = "prepare_sets X R (replicate (length X) [])"
  have lm: "length (replicate (length X) ([]::conjunction)) = length X" by simp
  show l1: "length (fst ?st) = length X" using prepare_sets_start(1)[OF assms] .
  show "length (snd ?st) = length X"
  proof (cases "X = []")
    case True
    then show ?thesis using assms(1) by (simp add: prepare_sets_def)
  next
    case False
    then have "0 < length X" by simp
    from prepare_sets_nth(4)[OF assms(1) lm this] show ?thesis .
  qed
  fix k assume k: "k < length X"
  have sx: "sorted_wrt (<) (X ! k)" using assms(2) k by (simp add: list_all_length)
  have sr: "sorted_wrt (<) (R ! k)" using assms(1,3) k by (simp add: list_all_length)
  have f: "fst ?st ! k = fst (prepare_walk (X ! k) (R ! k) [])"
    using prepare_sets_nth(1)[OF assms(1) lm k] k by simp
  have g: "snd ?st ! k = snd (prepare_walk (X ! k) (R ! k) [])"
    using prepare_sets_nth(2)[OF assms(1) lm k] k by simp
  note ws = prepare_walk_sets[OF sx sr, of "[]"]
  note wo = prepare_walk_sorted[OF sx sr, of "[]"]
  show "sorted_wrt (<) (fst ?st ! k)" using wo f by simp
  show "sorted_wrt (<) (snd ?st ! k)" using wo g by simp
  show "set (fst ?st ! k) \<inter> set (snd ?st ! k) = {}" using ws f g by auto
  show "set (fst ?st ! k) \<union> set (snd ?st ! k) = set (X ! k)" using ws f g by auto
qed

lemma wf_sample_locs:
  assumes "wf_sample L P datapoints horn_constraints"
  shows "\<forall>dp \<in> set datapoints. loc_id dp < L"
    and "\<forall>hc \<in> set horn_constraints. (\<forall>p \<in> set (hc_premises hc). loc_id p < L) \<and>
           (\<forall>c. hc_conclusion hc = Some c \<longrightarrow> loc_id c < L)"
  using assms
  by (auto simp: wf_sample_def list_all_iff wf_horn_constraint_def wf_datapoint_def)

text \<open>
  The assertions of the reducer all hold, and the reducer returns a consistent \<open>R\<close>, whenever
  it is called as \<^verbatim>\<open>main\<close> calls it: on a well-formed sample and with an \<open>X\<close> that is
  consistent with it.
\<close>

lemma reduce_predicates_all_succeeds:
  assumes ne: "X \<noteq> []" and len: "length R = length X"
    and sx: "list_all (sorted_wrt (<)) X" and sr: "list_all (sorted_wrt (<)) R"
    and wf: "wf_sample (length X) P datapoints horn_constraints"
    and cons: "is_consistent X datapoints horn_constraints"
  shows "\<exists>R'. reduce_predicates_all b datapoints horn_constraints X R = Inr R' \<and> conj_le R' X \<and>
           is_consistent R' datapoints horn_constraints"
proof -
  let ?st0 = "prepare_sets X R (replicate (length X) [])"
  note locs = wf_sample_locs[OF wf]
  have p0: "partitioned X ?st0" using prepare_sets_partitioned[OF len sx sr] .
  have negX: "\<forall>dp \<in> set datapoints. is_classified dp \<and> \<not> classification dp \<longrightarrow>
           \<not> satisfies dp (X ! loc_id dp)"
    using cons by (auto simp: is_consistent_iff)
  have hornX: "\<forall>hc \<in> set horn_constraints. horn_ok X hc"
    using cons by (simp add: is_consistent_iff)
  from negative_all_ok[OF p0 locs(1) negX] obtain st1 where
    n: "negative_all b X datapoints ?st0 = Inr st1" and p1: "partitioned X st1"
    and neg1: "\<forall>dp \<in> set datapoints. is_classified dp \<and> \<not> classification dp \<longrightarrow>
              \<not> satisfies dp (fst st1 ! loc_id dp)" by blast
  from horn_loop_all_ok[OF p1 locs(2) hornX] obtain st2 where
    h: "horn_loop_all b horn_constraints st1 = Inr st2" and p2: "partitioned X st2"
    and horn2: "\<forall>hc \<in> set horn_constraints. horn_ok (fst st2) hc" by blast
  have le2: "conj_le (fst st2) X" using partitioned_le[OF p2] .
  have len1: "length (fst st1) = length X" using p1 by (simp add: partitioned_def)
  have "satisfies dp (fst st2 ! loc_id dp) = classification dp"
    if dp: "dp \<in> set datapoints" "is_classified dp" for dp
  proof (cases "classification dp")
    case True
    with cons dp have "satisfies dp (X ! loc_id dp)" by (simp add: is_consistent_iff)
    from conj_le_satisfies[OF le2 _ this] locs(1) dp(1) True show ?thesis by simp
  next
    case False
    with neg1 dp have "\<not> satisfies dp (fst st1 ! loc_id dp)" by simp
    from still_falsified[OF horn_loop_all_grows[OF h] _ this] locs(1) dp(1) len1 False
    show ?thesis by simp
  qed
  with horn2 have c2: "is_consistent (fst st2) datapoints horn_constraints"
    by (simp add: is_consistent_iff)
  with n h ne len have "reduce_predicates_all b datapoints horn_constraints X R = Inr (fst st2)"
    by (simp add: reduce_predicates_all_def case_prod_beta)
  with le2 c2 show ?thesis by simp
qed

lemma add_first_ok:
  assumes p: "partitioned X st" and k: "loc_id dp < length X"
  shows "partitioned X (fst (add_first dp st)) \<and>
         (snd (add_first dp st) \<longleftrightarrow> (\<exists>q \<in> set (snd st ! loc_id dp). int_data dp ! q = 0)) \<and>
         (snd (add_first dp st) \<longrightarrow>
            \<not> satisfies dp (fst (fst (add_first dp st)) ! loc_id dp) \<and>
            length (fst (fst (add_first dp st)) ! loc_id dp) = Suc (length (fst st ! loc_id dp))) \<and>
         (\<not> snd (add_first dp st) \<longrightarrow> fst (add_first dp st) = st)"
proof -
  obtain R M where st: "st = (R, M)" by (cases st)
  note pk = partitionedD[OF p[unfolded st] k]
  let ?w = "move_first_zero dp (M ! loc_id dp) (R ! loc_id dp)"
  have d: "distinct (M ! loc_id dp)" using pk(2) by (simp add: strict_sorted_iff)
  from move_first_zero_sets[OF d, of dp "R ! loc_id dp"] obtain q where
    a: "snd (snd ?w) \<longleftrightarrow> (\<exists>p \<in> set (M ! loc_id dp). int_data dp ! p = 0)"
    and b: "snd (snd ?w) \<longrightarrow> q \<in> set (M ! loc_id dp) \<and> int_data dp ! q = 0 \<and>
           set (fst ?w) = insert q (set (R ! loc_id dp)) \<and>
           set (fst (snd ?w)) = set (M ! loc_id dp) - {q} \<and>
           fst ?w = set_insert q (R ! loc_id dp)"
    and c: "\<not> snd (snd ?w) \<longrightarrow> fst ?w = R ! loc_id dp \<and> fst (snd ?w) = M ! loc_id dp"
    by blast
  have e: "add_first dp st =
      ((R[loc_id dp := fst ?w], M[loc_id dp := fst (snd ?w)]), snd (snd ?w))"
    by (simp add: st add_first_def Let_def case_prod_beta)
  have lR: "length R = length X" and lM: "length M = length X" using pk(5,6) by simp_all
  show ?thesis
  proof (cases "snd (snd ?w)")
    case True
    with b have q: "q \<in> set (M ! loc_id dp)" "int_data dp ! q = 0"
      "set (fst ?w) = insert q (set (R ! loc_id dp))"
      "set (fst (snd ?w)) = set (M ! loc_id dp) - {q}"
      "fst ?w = set_insert q (R ! loc_id dp)" by simp_all
    have part: "partitioned X (R[loc_id dp := fst ?w], M[loc_id dp := fst (snd ?w)])"
    proof (rule partitioned_update[OF p[unfolded st] k])
      show "sorted_wrt (<) (fst ?w)" using q(5) pk(1) by simp
      show "sorted_wrt (<) (fst (snd ?w))" using pk(2) by (simp add: move_first_zero_sorted)
      show "set (fst ?w) \<inter> set (fst (snd ?w)) = {}" using q(3,4) pk(3) by auto
      show "set (fst ?w) \<union> set (fst (snd ?w)) = set (X ! loc_id dp)" using q(1,3,4) pk(4) by auto
    qed
    have nq: "q \<notin> set (R ! loc_id dp)" using q(1) pk(3) by auto
    have "\<not> satisfies dp (fst ?w)" using q(2,3) by (auto simp: satisfies_iff)
    moreover have "length (fst ?w) = Suc (length (R ! loc_id dp))"
      using q(5) nq pk(1) by (simp add: length_set_insert)
    ultimately show ?thesis using True a part e k lR st by simp
  next
    case False
    with c have "fst ?w = R ! loc_id dp" "fst (snd ?w) = M ! loc_id dp" by simp_all
    then have "add_first dp st = (st, False)" using e False by (simp add: st)
    with False a p show ?thesis by (simp add: st)
  qed
qed

lemma zero_in_rest:
  assumes p: "partitioned X st" and k: "loc_id dp < length X"
    and nx: "\<not> satisfies dp (X ! loc_id dp)" and r: "satisfies dp (fst st ! loc_id dp)"
  shows "\<exists>q \<in> set (snd st ! loc_id dp). int_data dp ! q = 0"
proof -
  from nx obtain q where q: "q \<in> set (X ! loc_id dp)" "int_data dp ! q = 0"
    by (auto simp: satisfies_iff)
  with r have "q \<notin> set (fst st ! loc_id dp)" by (auto simp: satisfies_iff)
  with q(1) partitionedD(4)[OF p k] have "q \<in> set (snd st ! loc_id dp)" by auto
  with q(2) show ?thesis by auto
qed

lemma negative_first_ok:
  assumes "partitioned X st"
    and "\<forall>dp \<in> set dps. loc_id dp < length X"
    and "\<forall>dp \<in> set dps. is_classified dp \<and> \<not> classification dp \<longrightarrow>
           \<not> satisfies dp (X ! loc_id dp)"
  shows "\<exists>st'. negative_first b dps st = Inr st' \<and> partitioned X st' \<and>
           (\<forall>dp \<in> set dps. is_classified dp \<and> \<not> classification dp \<longrightarrow>
              \<not> satisfies dp (fst st' ! loc_id dp))"
  using assms
proof (induction dps arbitrary: st)
  case Nil
  then show ?case by simp
next
  case (Cons dp dps)
  from Cons.prems(2) have k: "loc_id dp < length X" by simp
  have len: "length (fst st) = length X" using partitionedD(5)[OF Cons.prems(1) k] .
  show ?case
  proof (cases "is_classified dp \<and> \<not> classification dp \<and> satisfies dp (fst st ! loc_id dp)")
    case True
    with Cons.prems(3) have nx: "\<not> satisfies dp (X ! loc_id dp)" by simp
    let ?st1 = "fst (add_first dp st)"
    note af = add_first_ok[OF Cons.prems(1) k]
    from zero_in_rest[OF Cons.prems(1) k nx] True af have added: "snd (add_first dp st)" by simp
    with af have p1: "partitioned X ?st1"
      and f1: "\<not> satisfies dp (fst ?st1 ! loc_id dp)"
      and sz: "length (fst ?st1 ! loc_id dp) = Suc (length (fst st ! loc_id dp))" by simp_all
    have e: "negative_first b (dp # dps) st = negative_first b dps ?st1"
      using True sz k len by (simp add: Let_def)
    from Cons.IH[OF p1] Cons.prems(2,3) obtain st' where
      r: "negative_first b dps ?st1 = Inr st'" and p': "partitioned X st'"
      and f: "\<forall>dp \<in> set dps. is_classified dp \<and> \<not> classification dp \<longrightarrow>
              \<not> satisfies dp (fst st' ! loc_id dp)" by auto
    have "\<not> satisfies dp (fst st' ! loc_id dp)"
    proof (rule still_falsified[OF negative_first_grows[OF r]])
      show "loc_id dp < length (fst ?st1)" using partitionedD(5)[OF p1 k] k by simp
      show "\<not> satisfies dp (fst ?st1 ! loc_id dp)" using f1 .
    qed
    with e r p' f show ?thesis by simp
  next
    case False
    then have e: "negative_first b (dp # dps) st = negative_first b dps st"
      using k len by (auto simp: Let_def)
    from Cons.IH[OF Cons.prems(1)] Cons.prems(2,3) obtain st' where
      r: "negative_first b dps st = Inr st'" and p': "partitioned X st'"
      and f: "\<forall>dp \<in> set dps. is_classified dp \<and> \<not> classification dp \<longrightarrow>
              \<not> satisfies dp (fst st' ! loc_id dp)" by auto
    have "\<not> satisfies dp (fst st' ! loc_id dp)"
      if "is_classified dp \<and> \<not> classification dp"
    proof (rule still_falsified[OF negative_first_grows[OF r]])
      show "loc_id dp < length (fst st)" using len k by simp
      show "\<not> satisfies dp (fst st ! loc_id dp)" using False that by simp
    qed
    with e r p' f show ?thesis by simp
  qed
qed

lemma add_first_premise_ok:
  assumes "partitioned X st" "\<forall>p \<in> set ps. loc_id p < length X"
  shows "partitioned X (fst (add_first_premise ps st)) \<and>
         ((\<exists>p \<in> set ps. \<exists>q \<in> set (snd st ! loc_id p). int_data p ! q = 0) \<longrightarrow>
            snd (add_first_premise ps st) \<and>
            (\<exists>p \<in> set ps. \<not> satisfies p (fst (fst (add_first_premise ps st)) ! loc_id p)))"
  using assms
proof (induction ps arbitrary: st)
  case Nil
  then show ?case by simp
next
  case (Cons dp ps)
  from Cons.prems(2) have k: "loc_id dp < length X" by simp
  note af = add_first_ok[OF Cons.prems(1) k]
  show ?case
  proof (cases "snd (add_first dp st)")
    case True
    then have e: "add_first_premise (dp # ps) st = (fst (add_first dp st), True)"
      by (simp add: case_prod_beta)
    from af True show ?thesis unfolding e by auto
  next
    case False
    with af have same: "fst (add_first dp st) = st"
      and nz: "\<not> (\<exists>q \<in> set (snd st ! loc_id dp). int_data dp ! q = 0)" by simp_all
    from False same have e: "add_first_premise (dp # ps) st = add_first_premise ps st"
      by (simp add: case_prod_beta)
    from Cons.IH[OF Cons.prems(1)] Cons.prems(2) nz show ?thesis unfolding e by auto
  qed
qed

lemma scan_first_ok:
  assumes "partitioned X st"
    and "\<forall>hc \<in> set hcs. (\<forall>p \<in> set (hc_premises hc). loc_id p < length X) \<and>
           (\<forall>c. hc_conclusion hc = Some c \<longrightarrow> loc_id c < length X)"
    and "\<forall>hc \<in> set hcs. horn_ok X hc"
  shows "\<exists>hcs' st' flag. scan_first b hcs st = Inr (hcs', st', flag) \<and> partitioned X st' \<and>
           set hcs' \<subseteq> set hcs \<and>
           (\<forall>hc \<in> set hcs. hc \<in> set hcs' \<or> \<not> lhs_satisfied (fst st') (hc_premises hc)) \<and>
           (flag \<longrightarrow> st' = st \<and> (\<forall>hc \<in> set hcs'. horn_ok (fst st) hc))"
  using assms
proof (induction hcs arbitrary: st)
  case Nil
  then show ?case by (intro exI[of _ "[]"] exI[of _ st] exI[of _ True]) simp
next
  case (Cons hc hcs)
  from Cons.prems(2) have lp: "\<forall>p \<in> set (hc_premises hc). loc_id p < length X"
    and lc: "\<forall>c. hc_conclusion hc = Some c \<longrightarrow> loc_id c < length X" by simp_all
  have len: "length (fst st) = length X" using Cons.prems(1) by (simp add: partitioned_def)
  have l: "lhs_satisfied_asserting b (fst st) (hc_premises hc) =
      Inr (lhs_satisfied (fst st) (hc_premises hc))"
    using lhs_satisfied_asserting_ok[of "hc_premises hc" "fst st" b] lp len by simp
  have tl2: "\<forall>hc \<in> set hcs. (\<forall>p \<in> set (hc_premises hc). loc_id p < length X) \<and>
           (\<forall>c. hc_conclusion hc = Some c \<longrightarrow> loc_id c < length X)"
    and tl3: "\<forall>hc \<in> set hcs. horn_ok X hc" using Cons.prems(2,3) by simp_all
  show ?case
  proof (cases "lhs_satisfied (fst st) (hc_premises hc)")
    case False
    from Cons.IH[OF Cons.prems(1) tl2 tl3] obtain hcs' st' flag where
      r: "scan_first b hcs st = Inr (hcs', st', flag)" and p': "partitioned X st'"
      and sub: "set hcs' \<subseteq> set hcs"
      and vac: "\<forall>hc \<in> set hcs. hc \<in> set hcs' \<or> \<not> lhs_satisfied (fst st') (hc_premises hc)"
      and fl: "flag \<longrightarrow> st' = st \<and> (\<forall>hc \<in> set hcs'. horn_ok (fst st) hc)" by blast
    have e: "scan_first b (hc # hcs) st = Inr (hcs', st', flag)" using l False r by simp
    have "\<not> lhs_satisfied (fst st') (hc_premises hc)"
      using lhs_vacuous_mono[OF scan_first_grows[OF r] _ False] lp len by simp
    with e p' sub vac fl show ?thesis by auto
  next
    case True
    show ?thesis
    proof (cases "conclusion_satisfied (fst st) hc")
      case sat: True
      from Cons.IH[OF Cons.prems(1) tl2 tl3] obtain hcs' st' flag where
        r: "scan_first b hcs st = Inr (hcs', st', flag)" and p': "partitioned X st'"
        and sub: "set hcs' \<subseteq> set hcs"
        and vac: "\<forall>hc \<in> set hcs. hc \<in> set hcs' \<or> \<not> lhs_satisfied (fst st') (hc_premises hc)"
        and fl: "flag \<longrightarrow> st' = st \<and> (\<forall>hc \<in> set hcs'. horn_ok (fst st) hc)" by blast
      have e: "scan_first b (hc # hcs) st = Inr (hc # hcs', st', flag)" using l True sat r by simp
      have "horn_ok (fst st) hc" using sat by (simp add: horn_ok_def)
      with e p' sub vac fl show ?thesis by auto
    next
      case unsat: False
      let ?a = "add_first_premise (hc_premises hc) st"
      let ?st1 = "fst ?a"
      have hok: "horn_ok X hc" using Cons.prems(3) by simp
      from active_has_unsat_premise[OF Cons.prems(1) hok lc unsat] obtain q where
        q: "q \<in> set (hc_premises hc)" "\<not> satisfies q (X ! loc_id q)" by blast
      from True q(1) have "satisfies q (fst st ! loc_id q)" by (simp add: lhs_satisfied_iff)
      from zero_in_rest[OF Cons.prems(1) _ q(2) this] lp q(1)
      have "\<exists>p \<in> set (hc_premises hc). \<exists>z \<in> set (snd st ! loc_id p). int_data p ! z = 0"
        by blast
      with add_first_premise_ok[OF Cons.prems(1) lp] have p1: "partitioned X ?st1"
        and added: "snd ?a"
        and fa: "\<exists>p \<in> set (hc_premises hc). \<not> satisfies p (fst ?st1 ! loc_id p)" by simp_all
      from Cons.IH[OF p1 tl2 tl3] obtain hcs' st' flag where
        r: "scan_first b hcs ?st1 = Inr (hcs', st', flag)" and p': "partitioned X st'"
        and sub: "set hcs' \<subseteq> set hcs"
        and vac: "\<forall>hc \<in> set hcs. hc \<in> set hcs' \<or> \<not> lhs_satisfied (fst st') (hc_premises hc)"
        by blast
      have e: "scan_first b (hc # hcs) st = Inr (hcs', st', False)"
        using l True unsat r added by (simp add: case_prod_beta)
      have v1: "\<not> lhs_satisfied (fst ?st1) (hc_premises hc)" using fa by (auto simp: lhs_satisfied_iff)
      have len1: "length (fst ?st1) = length X" using p1 by (simp add: partitioned_def)
      have "\<forall>p \<in> set (hc_premises hc). loc_id p < length (fst ?st1)" using lp len1 by simp
      from lhs_vacuous_mono[OF scan_first_grows[OF r] this v1]
      have "\<not> lhs_satisfied (fst st') (hc_premises hc)" .
      with e p' sub vac show ?thesis by auto
    qed
  qed
qed

lemma horn_loop_first_ok:
  assumes "partitioned X st"
    and "\<forall>hc \<in> set hcs. (\<forall>p \<in> set (hc_premises hc). loc_id p < length X) \<and>
           (\<forall>c. hc_conclusion hc = Some c \<longrightarrow> loc_id c < length X)"
    and "\<forall>hc \<in> set hcs. horn_ok X hc"
  shows "\<exists>st'. horn_loop_first b hcs st = Inr st' \<and> partitioned X st' \<and>
           (\<forall>hc \<in> set hcs. horn_ok (fst st') hc)"
  using assms
proof (induction b hcs st rule: horn_loop_first.induct)
  case (1 b hcs st)
  from scan_first_ok[OF "1.prems"] obtain hcs1 st1 flag where
    r: "scan_first b hcs st = Inr (hcs1, st1, flag)" and p1: "partitioned X st1"
    and sub: "set hcs1 \<subseteq> set hcs"
    and vac: "\<forall>hc \<in> set hcs. hc \<in> set hcs1 \<or> \<not> lhs_satisfied (fst st1) (hc_premises hc)"
    and fl: "flag \<longrightarrow> st1 = st \<and> (\<forall>hc \<in> set hcs1. horn_ok (fst st) hc)" by blast
  show ?case
  proof (cases flag)
    case True
    with r have e: "horn_loop_first b hcs st = Inr st1" by (subst horn_loop_first.simps) simp
    from True fl vac have "\<forall>hc \<in> set hcs. horn_ok (fst st1) hc"
      by (auto intro: horn_ok_vacuous)
    with e p1 show ?thesis by simp
  next
    case False
    with r have e: "horn_loop_first b hcs st = horn_loop_first b hcs1 st1"
      by (subst horn_loop_first.simps) simp
    have a2: "\<forall>hc \<in> set hcs1. (\<forall>p \<in> set (hc_premises hc). loc_id p < length X) \<and>
           (\<forall>c. hc_conclusion hc = Some c \<longrightarrow> loc_id c < length X)"
      using "1.prems"(2) sub by blast
    have a3: "\<forall>hc \<in> set hcs1. horn_ok X hc" using "1.prems"(3) sub by blast
    from "1.IH"[OF r refl refl False p1 a2 a3] obtain st' where
      r': "horn_loop_first b hcs1 st1 = Inr st'" and p': "partitioned X st'"
      and ok: "\<forall>hc \<in> set hcs1. horn_ok (fst st') hc" by blast
    have len1: "length (fst st1) = length X" using p1 by (simp add: partitioned_def)
    have "horn_ok (fst st') hc" if hc: "hc \<in> set hcs" for hc
    proof (cases "hc \<in> set hcs1")
      case True
      with ok show ?thesis by simp
    next
      case False
      with vac hc have v: "\<not> lhs_satisfied (fst st1) (hc_premises hc)" by blast
      have "\<forall>p \<in> set (hc_premises hc). loc_id p < length (fst st1)"
        using "1.prems"(2) hc len1 by simp
      from lhs_vacuous_mono[OF horn_loop_first_grows[OF r'] this v] show ?thesis
        by (rule horn_ok_vacuous)
    qed
    with e r' p' show ?thesis by simp
  qed
qed

lemma reduce_predicates_first_succeeds:
  assumes ne: "X \<noteq> []" and len: "length R = length X"
    and sx: "list_all (sorted_wrt (<)) X" and sr: "list_all (sorted_wrt (<)) R"
    and wf: "wf_sample (length X) P datapoints horn_constraints"
    and cons: "is_consistent X datapoints horn_constraints"
  shows "\<exists>R'. reduce_predicates_first b datapoints horn_constraints X R = Inr R' \<and> conj_le R' X \<and>
           is_consistent R' datapoints horn_constraints"
proof -
  let ?st0 = "prepare_sets X R (replicate (length X) [])"
  note locs = wf_sample_locs[OF wf]
  have p0: "partitioned X ?st0" using prepare_sets_partitioned[OF len sx sr] .
  have negX: "\<forall>dp \<in> set datapoints. is_classified dp \<and> \<not> classification dp \<longrightarrow>
           \<not> satisfies dp (X ! loc_id dp)"
    using cons by (auto simp: is_consistent_iff)
  have hornX: "\<forall>hc \<in> set horn_constraints. horn_ok X hc"
    using cons by (simp add: is_consistent_iff)
  from negative_first_ok[OF p0 locs(1) negX] obtain st1 where
    n: "negative_first b datapoints ?st0 = Inr st1" and p1: "partitioned X st1"
    and neg1: "\<forall>dp \<in> set datapoints. is_classified dp \<and> \<not> classification dp \<longrightarrow>
              \<not> satisfies dp (fst st1 ! loc_id dp)" by blast
  from horn_loop_first_ok[OF p1 locs(2) hornX] obtain st2 where
    h: "horn_loop_first b horn_constraints st1 = Inr st2" and p2: "partitioned X st2"
    and horn2: "\<forall>hc \<in> set horn_constraints. horn_ok (fst st2) hc" by blast
  have le2: "conj_le (fst st2) X" using partitioned_le[OF p2] .
  have len1: "length (fst st1) = length X" using p1 by (simp add: partitioned_def)
  have "satisfies dp (fst st2 ! loc_id dp) = classification dp"
    if dp: "dp \<in> set datapoints" "is_classified dp" for dp
  proof (cases "classification dp")
    case True
    with cons dp have "satisfies dp (X ! loc_id dp)" by (simp add: is_consistent_iff)
    from conj_le_satisfies[OF le2 _ this] locs(1) dp(1) True show ?thesis by simp
  next
    case False
    with neg1 dp have "\<not> satisfies dp (fst st1 ! loc_id dp)" by simp
    from still_falsified[OF horn_loop_first_grows[OF h] _ this] locs(1) dp(1) len1 False
    show ?thesis by simp
  qed
  with horn2 have c2: "is_consistent (fst st2) datapoints horn_constraints"
    by (simp add: is_consistent_iff)
  with n h ne len have "reduce_predicates_first b datapoints horn_constraints X R = Inr (fst st2)"
    by (simp add: reduce_predicates_first_def case_prod_beta)
  with le2 c2 show ?thesis by simp
qed

subsection \<open>Winnow: masking and the Boolean tree\<close>

lemma mask_loop_length [simp]: "length (mask_loop Xi js ws) = length ws"
  by (induction js arbitrary: ws) auto

lemma mask_loop_nth:
  "j < length ws \<Longrightarrow> distinct js \<Longrightarrow>
     mask_loop Xi js ws ! j = (if j \<in> set js \<and> j \<notin> set Xi then 0 else ws ! j)"
proof (induction js arbitrary: ws)
  case Nil
  then show ?case by simp
next
  case (Cons i js)
  show ?case
  proof (cases "count_list Xi i = 0")
    case True
    then have ni: "i \<notin> set Xi" by (simp add: count_list_0_iff)
    from Cons.prems have "mask_loop Xi js (ws[i := 0]) ! j =
        (if j \<in> set js \<and> j \<notin> set Xi then 0 else ws[i := 0] ! j)"
      by (intro Cons.IH) simp_all
    moreover have "ws[i := 0] ! j = (if i = j then 0 else ws ! j)"
      using Cons.prems(1) by (simp add: nth_list_update)
    moreover have "j \<in> set Xi \<longrightarrow> i \<noteq> j" using ni by auto
    ultimately show ?thesis using True by auto
  next
    case False
    then have "i \<in> set Xi" by (simp add: count_list_0_iff)
    with False Cons.prems Cons.IH[of ws] show ?thesis by auto
  qed
qed

text \<open>
  What the masking does: in the weight vector of location \<open>k\<close>, the entry at position \<open>j\<close> is
  set to 0 when the number \<open>j\<close> is not in \<open>X[k]\<close>, and is left alone otherwise. The position
  is an index into the weight vector of the location; the members of \<open>X[k]\<close> are indices of
  predicates.
\<close>

lemma mask_irrelevant_nth:
  assumes "k < length w_objs" "j < length (weights (w_objs ! k))"
  shows "weights (mask_irrelevant X w_objs ! k) ! j =
           (if j \<in> set (X ! k) then weights (w_objs ! k) ! j else 0)"
    and "length (weights (mask_irrelevant X w_objs ! k)) = length (weights (w_objs ! k))"
  using assms mask_loop_nth[of j "weights (w_objs ! k)" "[0 ..< length (weights (w_objs ! k))]" "X ! k"]
  by (simp_all add: mask_irrelevant_def mask_location_def)

text \<open>
  Claim C8 at two locations with the intervals \<open>(0, 1)\<close> and \<open>(2, 3)\<close>, two weights each and
  \<open>X = [{0, 1}, {2}]\<close>. The claim wants the weight of predicate 3 at location 1 to be 0. The
  code sets both weights of location 1 to 0, positions 0 and 1 not being members of \<open>{2}\<close>;
  the weight vector has no position 3, and a prediction for a data point of location 1
  reads beyond its end.
\<close>

theorem masking_uses_local_index:
  "map weights (mask_irrelevant [[0, 1], [2]] [winnow_init2, winnow_init2]) =
     [[4 / 5, 4 / 5], [0, 0]] \<and>
   length (weights (mask_irrelevant [[0, 1], [2]] [winnow_init2, winnow_init2] ! 1)) = 2 \<and>
   predict (mask_irrelevant [[0, 1], [2]] [winnow_init2, winnow_init2] ! 1)
     (positive_dp1 [0, 0, 1, 0]) = Inl OutOfBounds"
  by (simp add: mask_irrelevant_def mask_location_def winnow_init2_def upt_rec predict_def
      positive_dp1_def numeral_2_eq_2)

text \<open>
  Claim C7 for the weights \<open>(1.0, 1.0)\<close> and the threshold \<open>0.441\<close>. The claim wants the tree
  to accept the input \<open>(0, 1)\<close>, for which \<open>\<Sigma> w\<^sub>i x\<^sub>i = 1\<close>. \<^verbatim>\<open>write_ltf2bool_json\<close> calls
  \<^verbatim>\<open>ltf2bool\<close> with the threshold \<open>int(2 - 0.441) = 1\<close>; the tree splits on attribute 0 and its
  first child is the leaf \<^verbatim>\<open>false\<close>, since the remaining weight 1 is not greater than the
  threshold 1: the tree rejects \<open>(0, 1)\<close>, although the sum reaches both the threshold
  \<open>0.441\<close> and the threshold 1 that \<^verbatim>\<open>ltf2bool\<close> was called with.
\<close>

theorem ltf2bool_rejects_at_threshold:
  "ltf2bool_root winnow_ones = Some (Node 0 (Leaf False) (Leaf True)) \<and>
   \<not> accepts (Node 0 (Leaf False) (Leaf True)) [False, True] \<and>
   ltf (weights winnow_ones) (theta winnow_ones) [False, True] \<and>
   ltf2bool_tree [1, 1] [0, 1] 1 = Some (Node 0 (Leaf False) (Leaf True)) \<and>
   ltf [1, 1] 1 [False, True]"
  by (simp add: ltf2bool_root_def winnow_ones_def c_trunc_def upt_rec ltf_def numeral_2_eq_2)

subsection \<open>The reducer greedy never gets past its first pick\<close>

text \<open>
  Every data point and every Horn constraint recorded under a predicate erases itself from
  the entry of this predicate when the predicate is picked, so the first step of the first
  non-empty loop of a pick invalidates the iterator of the loop: the pick ends in undefined
  behaviour, unless an \<^verbatim>\<open>at\<close> has thrown before.
\<close>

lemma forget_violator_invalid:
  "p \<in> set ps \<Longrightarrow> int_data dp ! p = 0 \<Longrightarrow> \<exists>e. forget_violator dp ps f (Some p) m = Inl e"
proof (induction ps arbitrary: m)
  case Nil
  then show ?case by simp
next
  case (Cons q ps)
  show ?case
  proof (cases "int_data dp ! q = 0")
    case zero: True
    show ?thesis
    proof (cases "map_modify_at q f m")
      case None
      with zero show ?thesis by simp
    next
      case (Some m')
      show ?thesis
      proof (cases "q = p")
        case True
        with zero Some show ?thesis by simp
      next
        case False
        with Cons.prems have "p \<in> set ps" by simp
        from Cons.IH[OF this Cons.prems(2), of m'] zero Some False show ?thesis by simp
      qed
    qed
  next
    case False
    with Cons.prems have "p \<in> set ps" by auto
    from Cons.IH[OF this Cons.prems(2), of m] False show ?thesis by simp
  qed
qed

lemma forget_at_invalid:
  assumes "loc_id dp = best_id" "best_p \<in> set (X_minus_R ! best_id)" "int_data dp ! best_p = 0"
  shows "\<exists>e. forget_at dp X_minus_R f best_id best_p predicates = Inl e"
proof (cases "best_id < length X_minus_R")
  case False
  with assms(1) show ?thesis by (simp add: forget_at_def)
next
  case k: True
  show ?thesis
  proof (cases "best_id < length predicates")
    case False
    from assms(2,3) have "list_ex (\<lambda>p. int_data dp ! p = 0) (X_minus_R ! best_id)"
      by (auto simp: list_ex_iff)
    with False k assms(1) show ?thesis by (simp add: forget_at_def)
  next
    case True
    from forget_violator_invalid[OF assms(2,3), of f "predicates ! best_id"] obtain e where
      "forget_violator dp (X_minus_R ! best_id) f (Some best_p) (predicates ! best_id) = Inl e"
      by blast
    with True k assms(1) show ?thesis by (simp add: forget_at_def)
  qed
qed

lemma forget_premises_invalid:
  assumes "\<exists>dp \<in> set dps. loc_id dp = best_id \<and> best_p \<in> set (X_minus_R ! best_id) \<and>
      int_data dp ! best_p = 0"
  shows "\<exists>e. forget_premises n dps X_minus_R best_id best_p predicates = Inl e"
  using assms
proof (induction dps arbitrary: predicates)
  case Nil
  then show ?case by simp
next
  case (Cons dp dps)
  let ?f = "\<lambda>v. (fst v, pointer_erase n (snd v))"
  show ?case
  proof (cases "forget_at dp X_minus_R ?f best_id best_p predicates")
    case (Inl e)
    then show ?thesis by simp
  next
    case (Inr predicates')
    have "\<not> (loc_id dp = best_id \<and> best_p \<in> set (X_minus_R ! best_id) \<and> int_data dp ! best_p = 0)"
    proof
      assume "loc_id dp = best_id \<and> best_p \<in> set (X_minus_R ! best_id) \<and> int_data dp ! best_p = 0"
      then obtain e where "forget_at dp X_minus_R ?f best_id best_p predicates = Inl e"
        using forget_at_invalid[of dp best_id best_p X_minus_R ?f predicates] by blast
      with Inr show False by simp
    qed
    with Cons.prems have "\<exists>dp \<in> set dps. loc_id dp = best_id \<and>
        best_p \<in> set (X_minus_R ! best_id) \<and> int_data dp ! best_p = 0" by auto
    from Cons.IH[OF this, of predicates'] Inr show ?thesis by simp
  qed
qed

lemma pick_invalid:
  assumes k: "best_id < length predicates"
    and v: "map_of (predicates ! best_id) best_p = Some v"
    and ok: "entry_ok best_id (X_minus_R ! best_id) (best_p, v)"
    and pos: "0 < entry_value (best_p, v)"
  shows "\<exists>e. pick best_id best_p X_minus_R predicates = Inl e"
proof (cases "fst v")
  case (Cons ndp dps)
  with ok have "loc_id (snd ndp) = best_id" "best_p \<in> set (X_minus_R ! best_id)"
    "int_data (snd ndp) ! best_p = 0" by (simp_all add: entry_ok_def)
  from forget_at_invalid[OF this] obtain e where
    "forget_at (snd ndp) X_minus_R (\<lambda>v. (pointer_erase (fst ndp) (fst v), snd v))
       best_id best_p predicates = Inl e" by blast
  with Cons have "forget_datapoints (fst v) X_minus_R best_id best_p predicates = Inl e"
    by simp
  with k v have "pick best_id best_p X_minus_R predicates = Inl e" by (simp add: pick_def)
  then show ?thesis by blast
next
  case Nil
  with pos obtain nhc hcs where s: "snd v = nhc # hcs"
    by (cases "snd v") (simp_all add: entry_value_def)
  with ok have "\<exists>dp \<in> set (hc_premises (snd nhc)). loc_id dp = best_id \<and>
      best_p \<in> set (X_minus_R ! best_id) \<and> int_data dp ! best_p = 0"
    by (simp add: entry_ok_def)
  from forget_premises_invalid[OF this, of "fst nhc" predicates] obtain e where
    "forget_premises (fst nhc) (hc_premises (snd nhc)) X_minus_R best_id best_p predicates
       = Inl e" by blast
  with s have "forget_horns (snd v) X_minus_R best_id best_p predicates = Inl e" by simp
  with k v Nil have "pick best_id best_p X_minus_R predicates = Inl e" by (simp add: pick_def)
  then show ?thesis by blast
qed


lemma pointer_insert_nonempty: "pointer_insert x ys \<noteq> []"
  by (induction ys) auto

lemma set_pointer_insert: "set (pointer_insert x ys) \<subseteq> insert x (set ys)"
  by (induction ys) auto

lemma map_modify_keys: "fst ` set (map_modify p f m) = insert p (fst ` set m)"
  by (induction m) auto

lemma map_modify_sorted:
  "sorted_wrt (<) (map fst m) \<Longrightarrow> sorted_wrt (<) (map fst (map_modify p f m))"
proof (induction m)
  case Nil
  then show ?case by simp
next
  case (Cons e m)
  show ?case
  proof (cases "p < fst e")
    case True
    with Cons.prems show ?thesis by auto
  next
    case False
    show ?thesis
    proof (cases "p = fst e")
      case True
      with Cons.prems show ?thesis by simp
    next
      case ne: False
      from Cons.prems have s: "sorted_wrt (<) (map fst m)"
        and lt: "\<forall>x \<in> fst ` set m. fst e < x" by auto
      from lt False ne have "\<forall>x \<in> fst ` set (map_modify p f m). fst e < x"
        unfolding map_modify_keys by auto
      with Cons.IH[OF s] False ne show ?thesis by auto
    qed
  qed
qed

lemma map_modify_entry:
  "e' \<in> set (map_modify p f m) \<Longrightarrow>
     e' \<in> set m \<or>
     (fst e' = p \<and> (snd e' = f ([], []) \<or> (\<exists>v. (p, v) \<in> set m \<and> snd e' = f v)))"
proof (induction m)
  case Nil
  then show ?case by auto
next
  case (Cons e m)
  show ?case
  proof (cases "p < fst e")
    case True
    with Cons.prems have "e' = (p, f ([], [])) \<or> e' \<in> set (e # m)" by auto
    then show ?thesis by auto
  next
    case False
    show ?thesis
    proof (cases "p = fst e")
      case True
      with Cons.prems have "e' = (p, f (snd e)) \<or> e' \<in> set m" by auto
      then show ?thesis
      proof
        assume "e' = (p, f (snd e))"
        moreover have "(p, snd e) \<in> set (e # m)" using True by (cases e) simp
        ultimately show ?thesis by (intro disjI2 conjI exI[of _ "snd e"]) simp_all
      next
        assume "e' \<in> set m"
        then show ?thesis by simp
      qed
    next
      case ne: False
      with False Cons.prems have "e' = e \<or> e' \<in> set (map_modify p f m)" by auto
      with Cons.IH show ?thesis by auto
    qed
  qed
qed

lemma entry_ok_empty: "entry_ok k ps (p, ([], []))"
  by (simp add: entry_ok_def)

lemma map_modify_ok:
  assumes m: "map_ok k ps m"
    and f: "\<And>v. entry_ok k ps (p, v) \<Longrightarrow> entry_ok k ps (p, f v)"
  shows "map_ok k ps (map_modify p f m)"
  unfolding map_ok_def
proof (intro conjI ballI)
  show "sorted_wrt (<) (map fst (map_modify p f m))"
    using m by (simp add: map_ok_def map_modify_sorted)
  fix e' assume "e' \<in> set (map_modify p f m)"
  from map_modify_entry[OF this]
  consider (old) "e' \<in> set m"
    | (empty) "fst e' = p" "snd e' = f ([], [])"
    | (new) v where "fst e' = p" "snd e' = f v" "(p, v) \<in> set m" by blast
  then show "entry_ok k ps e'"
  proof cases
    case old
    with m show ?thesis by (simp add: map_ok_def)
  next
    case empty
    from f[OF entry_ok_empty] empty show ?thesis by (cases e') simp
  next
    case new
    from new(3) m have "entry_ok k ps (p, v)" by (auto simp: map_ok_def)
    from f[OF this] new(1,2) show ?thesis by (cases e') simp
  qed
qed

lemma entry_value_pair: "entry_value (q, v) = length (fst v) + length (snd v)"
  by (simp add: entry_value_def)

lemma map_modify_pos_keep:
  assumes "\<exists>e \<in> set m. 0 < entry_value e"
    and f: "\<And>v. 0 < length (fst v) + length (snd v) \<Longrightarrow> 0 < length (fst (f v)) + length (snd (f v))"
  shows "\<exists>e \<in> set (map_modify p f m). 0 < entry_value e"
  using assms(1)
proof (induction m)
  case Nil
  then show ?case by simp
next
  case (Cons e m)
  show ?case
  proof (cases "p < fst e")
    case True
    with Cons.prems show ?thesis by auto
  next
    case False
    show ?thesis
    proof (cases "p = fst e")
      case True
      show ?thesis
      proof (cases "0 < entry_value e")
        case pos: True
        then have "0 < entry_value (p, f (snd e))"
          using f[of "snd e"] by (simp add: entry_value_def)
        with True show ?thesis by auto
      next
        case False
        with Cons.prems have "\<exists>e \<in> set m. 0 < entry_value e" by auto
        with True show ?thesis by auto
      qed
    next
      case ne: False
      show ?thesis
      proof (cases "0 < entry_value e")
        case True
        with False ne show ?thesis by auto
      next
        case nz: False
        with Cons.prems have "\<exists>e \<in> set m. 0 < entry_value e" by auto
        from Cons.IH[OF this] False ne show ?thesis by auto
      qed
    qed
  qed
qed

lemma map_modify_pos_new:
  assumes f: "\<And>v. 0 < length (fst (f v)) + length (snd (f v))"
  shows "\<exists>e \<in> set (map_modify p f m). 0 < entry_value e"
proof (induction m)
  case Nil
  then show ?case using f[of "([], [])"] by (simp add: entry_value_def)
next
  case (Cons e m)
  show ?case
  proof (cases "p < fst e")
    case True
    then show ?thesis using f[of "([], [])"] by (simp add: entry_value_def)
  next
    case False
    show ?thesis
    proof (cases "p = fst e")
      case True
      then show ?thesis using f[of "snd e"] by (simp add: entry_value_def)
    next
      case ne: False
      with False Cons.IH show ?thesis by auto
    qed
  qed
qed

lemma record_violator_ok:
  assumes "map_ok k ps m"
    and "\<And>p v. p \<in> set ps' \<Longrightarrow> int_data dp ! p = 0 \<Longrightarrow> entry_ok k ps (p, v)
           \<Longrightarrow> entry_ok k ps (p, f v)"
  shows "map_ok k ps (record_violator dp ps' f m)"
  using assms
proof (induction ps' arbitrary: m)
  case Nil
  then show ?case by simp
next
  case (Cons p ps')
  have tl: "\<And>q v. q \<in> set ps' \<Longrightarrow> int_data dp ! q = 0 \<Longrightarrow> entry_ok k ps (q, v)
           \<Longrightarrow> entry_ok k ps (q, f v)" using Cons.prems(2) by simp
  show ?case
  proof (cases "int_data dp ! p = 0")
    case True
    have "map_ok k ps (map_modify p f m)"
      by (rule map_modify_ok[OF Cons.prems(1)]) (simp add: Cons.prems(2) True)
    from Cons.IH[OF this tl] True show ?thesis by simp
  next
    case False
    from Cons.IH[OF Cons.prems(1) tl] False show ?thesis by simp
  qed
qed

lemma record_violator_pos_keep:
  assumes "\<exists>e \<in> set m. 0 < entry_value e"
    and f: "\<And>v. 0 < length (fst v) + length (snd v) \<Longrightarrow> 0 < length (fst (f v)) + length (snd (f v))"
  shows "\<exists>e \<in> set (record_violator dp ps' f m). 0 < entry_value e"
  using assms(1)
proof (induction ps' arbitrary: m)
  case Nil
  then show ?case by simp
next
  case (Cons p ps')
  show ?case
  proof (cases "int_data dp ! p = 0")
    case True
    from map_modify_pos_keep[where p = p, OF Cons.prems f]
    have "\<exists>e \<in> set (map_modify p f m). 0 < entry_value e" by simp
    from Cons.IH[OF this] True show ?thesis by simp
  next
    case False
    from Cons.IH[OF Cons.prems] False show ?thesis by simp
  qed
qed

lemma record_violator_pos_new:
  assumes "\<exists>p \<in> set ps'. int_data dp ! p = 0"
    and f: "\<And>v. 0 < length (fst (f v)) + length (snd (f v))"
  shows "\<exists>e \<in> set (record_violator dp ps' f m). 0 < entry_value e"
  using assms(1)
proof (induction ps' arbitrary: m)
  case Nil
  then show ?case by simp
next
  case (Cons p ps')
  show ?case
  proof (cases "int_data dp ! p = 0")
    case True
    from map_modify_pos_new[where p = p and m = m, OF f]
    have "\<exists>e \<in> set (map_modify p f m). 0 < entry_value e" by simp
    from record_violator_pos_keep[where dp = dp and ps' = ps', OF this f] True
    show ?thesis by simp
  next
    case False
    with Cons.prems have "\<exists>p \<in> set ps'. int_data dp ! p = 0" by auto
    from Cons.IH[OF this] False show ?thesis by simp
  qed
qed

lemma recorded_ok_update:
  assumes "recorded_ok M predicates" "k < length M" "map_ok k (M ! k) m'"
  shows "recorded_ok M (predicates[k := m'])"
  unfolding recorded_ok_def
proof (intro conjI allI impI)
  show "length (predicates[k := m']) = length M" using assms(1) by (simp add: recorded_ok_def)
  fix j assume j: "j < length M"
  from assms(1) have l: "length predicates = length M" by (simp add: recorded_ok_def)
  show "map_ok j (M ! j) (predicates[k := m'] ! j)"
  proof (cases "j = k")
    case True
    with assms(2,3) l show ?thesis by simp
  next
    case False
    with assms(1) j show ?thesis by (simp add: recorded_ok_def)
  qed
qed

lemma has_violator_update_new:
  assumes "k < length predicates" "\<exists>e \<in> set m'. 0 < entry_value e"
  shows "has_violator (predicates[k := m'])"
proof -
  from assms(1) have "m' \<in> set (predicates[k := m'])" by (rule set_update_memI)
  with assms(2) show ?thesis unfolding has_violator_def by blast
qed

lemma has_violator_update_keep:
  assumes h: "has_violator predicates" and k: "k < length predicates"
    and keep: "(\<exists>e \<in> set (predicates ! k). 0 < entry_value e) \<Longrightarrow> \<exists>e \<in> set m'. 0 < entry_value e"
  shows "has_violator (predicates[k := m'])"
proof -
  from h obtain m where m: "m \<in> set predicates" "\<exists>e \<in> set m. 0 < entry_value e"
    unfolding has_violator_def by blast
  from m(1) obtain j where "j < length predicates" "predicates ! j = m"
    by (auto simp: in_set_conv_nth)
  with m(2) have j: "j < length predicates" "\<exists>e \<in> set (predicates ! j). 0 < entry_value e"
    by simp_all
  show ?thesis
  proof (cases "j = k")
    case True
    with j keep have "\<exists>e \<in> set m'. 0 < entry_value e" by simp
    from has_violator_update_new[OF k this] show ?thesis .
  next
    case False
    with j(1) have "predicates[k := m'] ! j = predicates ! j" "j < length (predicates[k := m'])"
      by simp_all
    then have "predicates ! j \<in> set (predicates[k := m'])" by (metis nth_mem)
    with j(2) show ?thesis unfolding has_violator_def by blast
  qed
qed

lemma insert_datapoint_ok:
  assumes "loc_id (snd ndp) = k" "p \<in> set ps" "int_data (snd ndp) ! p = 0"
    and "entry_ok k ps (p, v)"
  shows "entry_ok k ps (p, (pointer_insert ndp (fst v), snd v))"
  using assms set_pointer_insert[of ndp "fst v"] by (auto simp: entry_ok_def)

lemma insert_horn_ok:
  assumes "\<exists>dp \<in> set (hc_premises (snd nhc)). loc_id dp = k \<and> p \<in> set ps \<and> int_data dp ! p = 0"
    and "entry_ok k ps (p, v)"
  shows "entry_ok k ps (p, (fst v, pointer_insert nhc (snd v)))"
  using assms set_pointer_insert[of nhc "snd v"] by (auto simp: entry_ok_def)

lemma negative_greedy_ok:
  assumes "recorded_ok M predicates"
    and "\<forall>ndp \<in> set ndps. loc_id (snd ndp) < length M"
    and "\<forall>ndp \<in> set ndps.
           is_classified (snd ndp) \<and> \<not> classification (snd ndp) \<and>
           satisfies (snd ndp) (R ! loc_id (snd ndp)) \<longrightarrow>
           (\<exists>q \<in> set (M ! loc_id (snd ndp)). int_data (snd ndp) ! q = 0)"
    and "negative_greedy b R M ndps predicates = Inr predicates'"
  shows "recorded_ok M predicates' \<and>
         (has_violator predicates \<longrightarrow> has_violator predicates') \<and>
         ((\<exists>ndp \<in> set ndps. is_classified (snd ndp) \<and> \<not> classification (snd ndp) \<and>
             satisfies (snd ndp) (R ! loc_id (snd ndp))) \<longrightarrow> has_violator predicates')"
  using assms
proof (induction ndps arbitrary: predicates)
  case Nil
  then show ?case by simp
next
  case (Cons ndp ndps)
  let ?dp = "snd ndp" and ?k = "loc_id (snd ndp)"
  let ?f = "\<lambda>v :: violators. (pointer_insert ndp (fst v), snd v)"
  from Cons.prems(2) have k: "?k < length M"
    and tl2: "\<forall>ndp \<in> set ndps. loc_id (snd ndp) < length M" by simp_all
  from Cons.prems(3) have tl3: "\<forall>ndp \<in> set ndps.
           is_classified (snd ndp) \<and> \<not> classification (snd ndp) \<and>
           satisfies (snd ndp) (R ! loc_id (snd ndp)) \<longrightarrow>
           (\<exists>q \<in> set (M ! loc_id (snd ndp)). int_data (snd ndp) ! q = 0)" by simp
  have lp: "length predicates = length M" using Cons.prems(1) by (simp add: recorded_ok_def)
  show ?case
  proof (cases "is_classified ?dp \<and> \<not> classification ?dp \<and> satisfies ?dp (R ! ?k)")
    case True
    let ?m = "record_violator ?dp (M ! ?k) ?f (predicates ! ?k)"
    let ?p1 = "predicates[?k := ?m]"
    from Cons.prems(4) True have r: "negative_greedy b R M ndps ?p1 = Inr predicates'"
      by (simp add: Let_def split: if_splits)
    have "map_ok ?k (M ! ?k) (predicates ! ?k)"
      using Cons.prems(1) k by (simp add: recorded_ok_def)
    then have "map_ok ?k (M ! ?k) ?m"
      by (rule record_violator_ok) (rule insert_datapoint_ok, simp_all)
    from recorded_ok_update[OF Cons.prems(1) k this] have ok1: "recorded_ok M ?p1" .
    from Cons.prems(3) True have "\<exists>q \<in> set (M ! ?k). int_data ?dp ! q = 0" by simp
    then have "\<exists>e \<in> set ?m. 0 < entry_value e"
      by (rule record_violator_pos_new) (simp add: pointer_insert_nonempty)
    from has_violator_update_new[OF _ this, of ?k predicates] k lp
    have hv: "has_violator ?p1" by simp
    from Cons.IH[OF ok1 tl2 tl3 r] hv show ?thesis by simp
  next
    case False
    with Cons.prems(4) have r: "negative_greedy b R M ndps predicates = Inr predicates'"
      by (auto simp: Let_def split: if_splits)
    from Cons.IH[OF Cons.prems(1) tl2 tl3 r] False show ?thesis by auto
  qed
qed

lemma record_horn_ok:
  assumes "recorded_ok M predicates"
    and "\<forall>dp \<in> set dps. loc_id dp < length M"
    and "set dps \<subseteq> set (hc_premises (snd nhc))"
  shows "recorded_ok M (record_horn nhc M dps predicates) \<and>
         (has_violator predicates \<longrightarrow> has_violator (record_horn nhc M dps predicates)) \<and>
         ((\<exists>dp \<in> set dps. \<exists>q \<in> set (M ! loc_id dp). int_data dp ! q = 0) \<longrightarrow>
            has_violator (record_horn nhc M dps predicates))"
  using assms
proof (induction dps arbitrary: predicates)
  case Nil
  then show ?case by simp
next
  case (Cons dp dps)
  let ?k = "loc_id dp"
  let ?f = "\<lambda>v :: violators. (fst v, pointer_insert nhc (snd v))"
  let ?m = "record_violator dp (M ! ?k) ?f (predicates ! ?k)"
  let ?p1 = "predicates[?k := ?m]"
  from Cons.prems(2) have k: "?k < length M"
    and tl2: "\<forall>dp \<in> set dps. loc_id dp < length M" by simp_all
  from Cons.prems(3) have mem: "dp \<in> set (hc_premises (snd nhc))"
    and tl3: "set dps \<subseteq> set (hc_premises (snd nhc))" by simp_all
  have lp: "length predicates = length M" using Cons.prems(1) by (simp add: recorded_ok_def)
  have e: "record_horn nhc M (dp # dps) predicates = record_horn nhc M dps ?p1"
    by (simp add: Let_def)
  have "map_ok ?k (M ! ?k) (predicates ! ?k)"
    using Cons.prems(1) k by (simp add: recorded_ok_def)
  then have "map_ok ?k (M ! ?k) ?m"
  proof (rule record_violator_ok)
    fix p v assume "p \<in> set (M ! ?k)" "int_data dp ! p = 0" "entry_ok ?k (M ! ?k) (p, v)"
    with mem show "entry_ok ?k (M ! ?k) (p, fst v, pointer_insert nhc (snd v))"
      by (intro insert_horn_ok) auto
  qed
  from recorded_ok_update[OF Cons.prems(1) k this] have ok1: "recorded_ok M ?p1" .
  have keep: "has_violator ?p1" if "has_violator predicates"
  proof (rule has_violator_update_keep[OF that])
    show "?k < length predicates" using k lp by simp
    assume "\<exists>e \<in> set (predicates ! ?k). 0 < entry_value e"
    then show "\<exists>e \<in> set ?m. 0 < entry_value e"
      by (rule record_violator_pos_keep) (simp add: pointer_insert_nonempty)
  qed
  have new: "has_violator ?p1" if "\<exists>q \<in> set (M ! ?k). int_data dp ! q = 0"
  proof -
    from that have "\<exists>e \<in> set ?m. 0 < entry_value e"
      by (rule record_violator_pos_new) (simp add: pointer_insert_nonempty)
    from has_violator_update_new[OF _ this, of ?k predicates] k lp show ?thesis by simp
  qed
  from Cons.IH[OF ok1 tl2 tl3] keep new show ?case unfolding e by auto
qed


lemma collect_horn_ok:
  assumes "recorded_ok M predicates" and lR: "length R = length M"
    and "\<forall>nhc \<in> set nhcs. \<forall>p \<in> set (hc_premises (snd nhc)). loc_id p < length M"
    and "\<forall>nhc \<in> set nhcs.
           lhs_satisfied R (hc_premises (snd nhc)) \<and> \<not> conclusion_satisfied R (snd nhc) \<longrightarrow>
           (\<exists>dp \<in> set (hc_premises (snd nhc)). \<exists>q \<in> set (M ! loc_id dp). int_data dp ! q = 0)"
    and "collect_horn b R M nhcs predicates d0 = Inr (predicates', d')"
  shows "recorded_ok M predicates' \<and>
         (has_violator predicates \<longrightarrow> has_violator predicates') \<and>
         (d' \<longrightarrow> d0 \<and> (\<forall>nhc \<in> set nhcs. horn_ok R (snd nhc))) \<and>
         (\<not> d' \<longrightarrow> \<not> d0 \<or> has_violator predicates')"
  using assms(1,3,4,5)
proof (induction nhcs arbitrary: predicates d0)
  case Nil
  then show ?case by simp
next
  case (Cons nhc nhcs)
  let ?ps = "hc_premises (snd nhc)"
  from Cons.prems(2) have lp: "\<forall>p \<in> set ?ps. loc_id p < length M"
    and tl2: "\<forall>nhc \<in> set nhcs. \<forall>p \<in> set (hc_premises (snd nhc)). loc_id p < length M"
    by simp_all
  from Cons.prems(3) have tl3: "\<forall>nhc \<in> set nhcs.
           lhs_satisfied R (hc_premises (snd nhc)) \<and> \<not> conclusion_satisfied R (snd nhc) \<longrightarrow>
           (\<exists>dp \<in> set (hc_premises (snd nhc)). \<exists>q \<in> set (M ! loc_id dp). int_data dp ! q = 0)"
    by simp
  have l: "lhs_satisfied_asserting b R ?ps = Inr (lhs_satisfied R ?ps)"
    using lhs_satisfied_asserting_ok[of ?ps R b] lp lR by simp
  show ?case
  proof (cases "lhs_satisfied R ?ps \<and> \<not> conclusion_satisfied R (snd nhc)")
    case True
    let ?p1 = "record_horn nhc M ?ps predicates"
    from Cons.prems(4) l True have r: "collect_horn b R M nhcs ?p1 False = Inr (predicates', d')"
      by simp
    from Cons.prems(3) True
    have z: "\<exists>dp \<in> set ?ps. \<exists>q \<in> set (M ! loc_id dp). int_data dp ! q = 0" by simp
    from record_horn_ok[OF Cons.prems(1) lp, of nhc] z have ok1: "recorded_ok M ?p1"
      and hv: "has_violator ?p1" by simp_all
    from Cons.IH[OF ok1 tl2 tl3 r] hv show ?thesis by simp
  next
    case False
    with Cons.prems(4) l have r: "collect_horn b R M nhcs predicates d0 = Inr (predicates', d')"
      by auto
    from False have "horn_ok R (snd nhc)" by (auto simp: horn_ok_def)
    with Cons.IH[OF Cons.prems(1) tl2 tl3 r] show ?thesis by simp
  qed
qed

lemma best_in_map_None:
  "best_in_map i m best = None \<Longrightarrow> best = None \<and> (\<forall>e \<in> set m. entry_value e = 0)"
proof (induction m arbitrary: best)
  case Nil
  then show ?case by simp
next
  case (Cons e m)
  show ?case
  proof (cases "entry_value e > (case best of None \<Rightarrow> 0 | Some b \<Rightarrow> fst b)")
    case True
    with Cons.prems have "best_in_map i m (Some (entry_value e, i, fst e)) = None" by simp
    from Cons.IH[OF this] show ?thesis by simp
  next
    case False
    with Cons.prems have "best_in_map i m best = None" by simp
    from Cons.IH[OF this] False show ?thesis by simp
  qed
qed

lemma best_in_map_Some:
  "best_in_map i m best = Some r \<Longrightarrow>
     best = Some r \<or> (\<exists>e \<in> set m. r = (entry_value e, i, fst e) \<and> 0 < entry_value e)"
proof (induction m arbitrary: best)
  case Nil
  then show ?case by simp
next
  case (Cons e m)
  show ?case
  proof (cases "entry_value e > (case best of None \<Rightarrow> 0 | Some b \<Rightarrow> fst b)")
    case True
    then have pos: "0 < entry_value e" by simp
    from True Cons.prems have "best_in_map i m (Some (entry_value e, i, fst e)) = Some r" by simp
    from Cons.IH[OF this] pos show ?thesis by auto
  next
    case False
    with Cons.prems have "best_in_map i m best = Some r" by simp
    from Cons.IH[OF this] show ?thesis by auto
  qed
qed

lemma find_best_None:
  "find_best i ms best = None \<Longrightarrow>
     best = None \<and> (\<forall>m \<in> set ms. \<forall>e \<in> set m. entry_value e = 0)"
proof (induction ms arbitrary: i best)
  case Nil
  then show ?case by simp
next
  case (Cons m ms)
  from Cons.prems have "find_best (Suc i) ms (best_in_map i m best) = None" by simp
  from Cons.IH[OF this] have "best_in_map i m best = None"
    and tl: "\<forall>m \<in> set ms. \<forall>e \<in> set m. entry_value e = 0" by simp_all
  from best_in_map_None[OF this(1)] tl show ?case by simp
qed

lemma find_best_Some:
  "find_best i ms best = Some r \<Longrightarrow>
     best = Some r \<or>
     (\<exists>j < length ms. \<exists>e \<in> set (ms ! j). r = (entry_value e, i + j, fst e) \<and> 0 < entry_value e)"
proof (induction ms arbitrary: i best)
  case Nil
  then show ?case by simp
next
  case (Cons m ms)
  from Cons.prems have "find_best (Suc i) ms (best_in_map i m best) = Some r" by simp
  from Cons.IH[OF this]
  consider (a) "best_in_map i m best = Some r"
    | (b) j e where "j < length ms" "e \<in> set (ms ! j)" "r = (entry_value e, Suc i + j, fst e)"
        "0 < entry_value e" by blast
  then show ?case
  proof cases
    case a
    from best_in_map_Some[OF a] show ?thesis
    proof
      assume "best = Some r"
      then show ?thesis by simp
    next
      assume "\<exists>e \<in> set m. r = (entry_value e, i, fst e) \<and> 0 < entry_value e"
      then obtain e where "e \<in> set ((m # ms) ! 0)" "r = (entry_value e, i + 0, fst e)"
        "0 < entry_value e" by auto
      then show ?thesis by (intro disjI2 exI[of _ 0]) auto
    qed
  next
    case b
    then have "Suc j < length (m # ms)" "e \<in> set ((m # ms) ! Suc j)"
      "r = (entry_value e, i + Suc j, fst e)" by simp_all
    with b(4) show ?thesis by blast
  qed
qed

declare pick_loop.simps [simp del]

lemma pick_loop_ok:
  assumes ok: "recorded_ok M predicates"
    and run: "pick_loop M predicates new d = Inr r"
  shows "r = (predicates, new, d) \<and> \<not> has_violator predicates"
proof (cases "find_best 0 predicates None")
  case None
  with run have "r = (predicates, new, d)" by (subst (asm) pick_loop.simps) simp
  moreover from find_best_None[OF None] have "\<not> has_violator predicates"
    by (auto simp: has_violator_def)
  ultimately show ?thesis by simp
next
  case (Some best)
  from find_best_Some[OF Some] obtain j e where j: "j < length predicates"
    and e: "e \<in> set (predicates ! j)" and best: "best = (entry_value e, j, fst e)"
    and pos: "0 < entry_value e" by auto
  from ok j have jM: "j < length M" and mo: "map_ok j (M ! j) (predicates ! j)"
    by (simp_all add: recorded_ok_def)
  from mo have "distinct (map fst (predicates ! j))"
    by (simp add: map_ok_def strict_sorted_iff)
  moreover from e have "(fst e, snd e) \<in> set (predicates ! j)" by simp
  ultimately have v: "map_of (predicates ! j) (fst e) = Some (snd e)" by (rule map_of_is_SomeI)
  from mo e have eo: "entry_ok j (M ! j) (fst e, snd e)" by (simp add: map_ok_def)
  from pos have pos': "0 < entry_value (fst e, snd e)" by simp
  from pick_invalid[OF j v eo pos'] obtain x where "pick j (fst e) M predicates = Inl x"
    by blast
  with Some best have "pick_loop M predicates new d = Inl x"
    by (subst pick_loop.simps) simp
  with run show ?thesis by simp
qed


lemma enumerate_snd_mem: "x \<in> set (enumerate n xs) \<Longrightarrow> snd x \<in> set xs"
  by (metis image_eqI list.set_map map_snd_enumerate)

lemma enumerate_mem_snd: "y \<in> set xs \<Longrightarrow> \<exists>x \<in> set (enumerate n xs). snd x = y"
proof -
  assume "y \<in> set xs"
  then have "y \<in> snd ` set (enumerate n xs)" by (metis list.set_map map_snd_enumerate)
  then show ?thesis by auto
qed

lemma greedy_round_ok:
  assumes p: "partitioned X st" and ok: "recorded_ok (snd st) predicates"
    and locs: "\<forall>hc \<in> set horns. (\<forall>p \<in> set (hc_premises hc). loc_id p < length X) \<and>
           (\<forall>c. hc_conclusion hc = Some c \<longrightarrow> loc_id c < length X)"
    and hornX: "\<forall>hc \<in> set horns. horn_ok X hc"
    and run: "greedy_round b horns (st, predicates) = Inr (gs', d)"
  shows "d \<and> fst gs' = st \<and> \<not> has_violator predicates \<and> (\<forall>hc \<in> set horns. horn_ok (fst st) hc)"
proof -
  have lR: "length (fst st) = length (snd st)" and lM: "length (snd st) = length X"
    using p by (simp_all add: partitioned_def)
  from run obtain preds1 d1 where
    c: "collect_horn b (fst st) (snd st) (enumerate 0 horns) predicates True = Inr (preds1, d1)"
    by (auto simp: greedy_round_def split: sum.splits)
  with run obtain preds2 new d2 where
    pl: "pick_loop (snd st) preds1 [] d1 = Inr (preds2, new, d2)"
    and gs': "gs' = (add_relevant new st, preds2)" and d: "d = d2"
    by (auto simp: greedy_round_def split: sum.splits if_splits)
  have l2: "\<forall>nhc \<in> set (enumerate 0 horns). \<forall>p \<in> set (hc_premises (snd nhc)).
      loc_id p < length (snd st)"
    using locs lM enumerate_snd_mem[of _ 0 horns] by auto
  have act: "\<forall>nhc \<in> set (enumerate 0 horns).
      lhs_satisfied (fst st) (hc_premises (snd nhc)) \<and> \<not> conclusion_satisfied (fst st) (snd nhc) \<longrightarrow>
      (\<exists>dp \<in> set (hc_premises (snd nhc)). \<exists>q \<in> set (snd st ! loc_id dp). int_data dp ! q = 0)"
  proof (intro ballI impI)
    fix nhc assume "nhc \<in> set (enumerate 0 horns)"
      and a: "lhs_satisfied (fst st) (hc_premises (snd nhc)) \<and>
        \<not> conclusion_satisfied (fst st) (snd nhc)"
    then have hc: "snd nhc \<in> set horns" by (simp add: enumerate_snd_mem)
    with locs hornX have lp: "\<forall>p \<in> set (hc_premises (snd nhc)). loc_id p < length X"
      and lc: "\<forall>c. hc_conclusion (snd nhc) = Some c \<longrightarrow> loc_id c < length X"
      and hok: "horn_ok X (snd nhc)" by simp_all
    from a have ns: "\<not> conclusion_satisfied (fst st) (snd nhc)" by simp
    from active_has_unsat_premise[OF p hok lc ns] obtain q where
      q: "q \<in> set (hc_premises (snd nhc))" "\<not> satisfies q (X ! loc_id q)" by blast
    from a q(1) have "satisfies q (fst st ! loc_id q)" by (simp add: lhs_satisfied_iff)
    from zero_in_rest[OF p _ q(2) this] lp q(1)
    show "\<exists>dp \<in> set (hc_premises (snd nhc)). \<exists>q \<in> set (snd st ! loc_id dp). int_data dp ! q = 0"
      by blast
  qed
  from collect_horn_ok[OF ok lR l2 act c] have ok1: "recorded_ok (snd st) preds1"
    and mono: "has_violator predicates \<longrightarrow> has_violator preds1"
    and d1: "d1 \<longrightarrow> (\<forall>nhc \<in> set (enumerate 0 horns). horn_ok (fst st) (snd nhc))"
    and nd1: "\<not> d1 \<longrightarrow> has_violator preds1" by simp_all
  from pick_loop_ok[OF ok1 pl] have e: "preds2 = preds1" "new = []" "d2 = d1"
    and nv: "\<not> has_violator preds1" by simp_all
  from nv nd1 have t: d1 by blast
  have "horn_ok (fst st) hc" if "hc \<in> set horns" for hc
    using enumerate_mem_snd[OF that, of 0] d1 t by auto
  with t e d gs' nv mono show ?thesis by simp
qed

text \<open>
  So the reducer greedy, called on a well-formed sample with an \<open>X\<close> that is consistent with
  it, returns only when there is nothing to add: the result is \<open>R \<inter> X\<close>, which is consistent
  already. Whenever a predicate has to be added, the call does not return a result.
\<close>

lemma reduce_predicates_greedy_consistent:
  assumes sx: "list_all (sorted_wrt (<)) X" and sr: "list_all (sorted_wrt (<)) R"
    and wf: "wf_sample (length X) P datapoints horn_constraints"
    and cons: "is_consistent X datapoints horn_constraints"
    and run: "reduce_predicates_greedy b datapoints horn_constraints X R = Some (Inr R')"
  shows "conj_le R' X \<and> is_consistent R' datapoints horn_constraints \<and>
         R' = fst (prepare_sets X R (replicate (length X) []))"
proof -
  let ?st0 = "prepare_sets X R (replicate (length X) [])"
  from run have ne: "X \<noteq> []" and len: "length R = length X"
    by (auto simp: reduce_predicates_greedy_def split: if_splits)
  from run ne len obtain preds1 gs where
    n: "negative_greedy b (fst ?st0) (snd ?st0) (enumerate 0 datapoints)
          (replicate (length X) []) = Inr preds1"
    and g: "greedy_loop b horn_constraints (?st0, preds1) = Some (Inr gs)"
    and R': "R' = fst (fst gs)"
    by (auto simp: reduce_predicates_greedy_def Let_def
        split: sum.splits option.splits if_splits)
  note locs = wf_sample_locs[OF wf]
  have p0: "partitioned X ?st0" using prepare_sets_partitioned[OF len sx sr] .
  have lR0: "length (fst ?st0) = length X" and lM0: "length (snd ?st0) = length X"
    using p0 by (simp_all add: partitioned_def)
  have hornX: "\<forall>hc \<in> set horn_constraints. horn_ok X hc"
    using cons by (simp add: is_consistent_iff)
  have ok0: "recorded_ok (snd ?st0) (replicate (length X) [])"
    using lM0 by (simp add: recorded_ok_def map_ok_def)
  have l1: "\<forall>ndp \<in> set (enumerate 0 datapoints). loc_id (snd ndp) < length (snd ?st0)"
    using locs(1) lM0 enumerate_snd_mem[of _ 0 datapoints] by auto
  have z: "\<forall>ndp \<in> set (enumerate 0 datapoints).
      is_classified (snd ndp) \<and> \<not> classification (snd ndp) \<and>
      satisfies (snd ndp) (fst ?st0 ! loc_id (snd ndp)) \<longrightarrow>
      (\<exists>q \<in> set (snd ?st0 ! loc_id (snd ndp)). int_data (snd ndp) ! q = 0)"
  proof (intro ballI impI)
    fix ndp assume "ndp \<in> set (enumerate 0 datapoints)"
      and a: "is_classified (snd ndp) \<and> \<not> classification (snd ndp) \<and>
        satisfies (snd ndp) (fst ?st0 ! loc_id (snd ndp))"
    then have dp: "snd ndp \<in> set datapoints" by (simp add: enumerate_snd_mem)
    with cons a have nx: "\<not> satisfies (snd ndp) (X ! loc_id (snd ndp))"
      by (auto simp: is_consistent_iff)
    from locs(1) dp have k: "loc_id (snd ndp) < length X" by simp
    from a have r: "satisfies (snd ndp) (fst ?st0 ! loc_id (snd ndp))" by simp
    from zero_in_rest[OF p0 k nx r]
    show "\<exists>q \<in> set (snd ?st0 ! loc_id (snd ndp)). int_data (snd ndp) ! q = 0" .
  qed
  from negative_greedy_ok[OF ok0 l1 z n] have ok1: "recorded_ok (snd ?st0) preds1"
    and neg: "(\<exists>ndp \<in> set (enumerate 0 datapoints). is_classified (snd ndp) \<and>
        \<not> classification (snd ndp) \<and> satisfies (snd ndp) (fst ?st0 ! loc_id (snd ndp)))
      \<longrightarrow> has_violator preds1" by simp_all
  from g have u: "(case greedy_round b horn_constraints (?st0, preds1) of
        Inl e \<Rightarrow> Some (Inl e)
      | Inr r \<Rightarrow> if snd r then Some (Inr (fst r))
                 else greedy_loop b horn_constraints (fst r)) = Some (Inr gs)"
    by (subst (asm) greedy_loop.simps) simp
  then obtain gs1 d where gr: "greedy_round b horn_constraints (?st0, preds1) = Inr (gs1, d)"
    by (cases "greedy_round b horn_constraints (?st0, preds1)") auto
  from greedy_round_ok[OF p0 _ locs(2) hornX gr] ok1 have d: d and same: "fst gs1 = ?st0"
    and nv: "\<not> has_violator preds1"
    and horn1: "\<forall>hc \<in> set horn_constraints. horn_ok (fst ?st0) hc" by simp_all
  from u gr d have "gs = gs1" by simp
  with R' same have R0: "R' = fst ?st0" by simp
  have le: "conj_le (fst ?st0) X" using partitioned_le[OF p0] .
  have "satisfies dp (fst ?st0 ! loc_id dp) = classification dp"
    if dp: "dp \<in> set datapoints" "is_classified dp" for dp
  proof (cases "classification dp")
    case True
    with cons dp have "satisfies dp (X ! loc_id dp)" by (simp add: is_consistent_iff)
    from conj_le_satisfies[OF le _ this] locs(1) dp(1) True show ?thesis by simp
  next
    case False
    have "\<not> satisfies dp (fst ?st0 ! loc_id dp)"
    proof
      assume s: "satisfies dp (fst ?st0 ! loc_id dp)"
      from enumerate_mem_snd[OF dp(1), of 0] obtain ndp where
        "ndp \<in> set (enumerate 0 datapoints)" "snd ndp = dp" by blast
      with neg dp(2) False s have "has_violator preds1" by blast
      with nv show False by simp
    qed
    with False show ?thesis by simp
  qed
  with horn1 have "is_consistent (fst ?st0) datapoints horn_constraints"
    by (simp add: is_consistent_iff)
  with le R0 show ?thesis by simp
qed

subsection \<open>The reducer minimal with a sound solver\<close>

text \<open>
  What the two formulas say. The formula for the negative data points holds under an
  assignment exactly when every negative data point that satisfies \<open>R\<close> falsifies a predicate
  of \<open>X_minus_R\<close> whose constant is true; the formula for the Horn constraints holds exactly
  when every constraint whose premises satisfy \<open>R\<close> has a premise that falsifies such a
  predicate or, its conclusion being satisfied, no constant of a predicate that its
  conclusion falsifies is true. The reducer adds the predicates whose constant the model
  makes true, so the model of a sound solver gives a consistent \<open>R\<close>.
\<close>

lemma number_vars_keys: "map fst (fst (number_vars n c)) = c"
  by (induction c arbitrary: n) (auto simp: case_prod_beta)

lemma build_attr2expr_keys:
  "length (fst (build_attr2expr n cs)) = length cs \<and>
   (\<forall>k < length cs. map fst (fst (build_attr2expr n cs) ! k) = cs ! k)"
proof (induction cs arbitrary: n)
  case Nil
  then show ?case by simp
next
  case (Cons c cs)
  show ?case
  proof (intro conjI allI impI)
    show "length (fst (build_attr2expr n (c # cs))) = length (c # cs)"
      using Cons.IH by (simp add: case_prod_beta)
    fix k assume "k < length (c # cs)"
    then show "map fst (fst (build_attr2expr n (c # cs)) ! k) = (c # cs) ! k"
      using Cons.IH number_vars_keys[of n c] by (cases k) (simp_all add: case_prod_beta)
  qed
qed

lemma negative_clause_eval:
  "negative_clause dp ps m c0 = Inr c \<Longrightarrow>
     eval_expr t c \<longleftrightarrow>
       eval_expr t c0 \<or> (\<exists>p \<in> set ps. int_data dp ! p = 0 \<and> (\<exists>v. map_of m p = Some v \<and> t v))"
proof (induction ps arbitrary: c0)
  case Nil
  then show ?case by simp
next
  case (Cons p ps)
  show ?case
  proof (cases "int_data dp ! p = 0")
    case True
    with Cons.prems obtain v where v: "map_of m p = Some v"
      and r: "negative_clause dp ps m (Or_expr c0 (Const v)) = Inr c"
      by (auto split: option.splits)
    from Cons.IH[OF r] True v show ?thesis by auto
  next
    case False
    with Cons.prems have "negative_clause dp ps m c0 = Inr c" by simp
    from Cons.IH[OF this] False show ?thesis by auto
  qed
qed

lemma negative_minimal_eval:
  "negative_minimal R M attr dps e0 = Inr e \<Longrightarrow>
     eval_expr t e \<longleftrightarrow>
       eval_expr t e0 \<and>
       (\<forall>dp \<in> set dps. is_classified dp \<and> \<not> classification dp \<and> satisfies dp (R ! loc_id dp) \<longrightarrow>
          (\<exists>p \<in> set (M ! loc_id dp). int_data dp ! p = 0 \<and>
             (\<exists>v. map_of (attr ! loc_id dp) p = Some v \<and> t v)))"
proof (induction dps arbitrary: e0)
  case Nil
  then show ?case by simp
next
  case (Cons dp dps)
  show ?case
  proof (cases "is_classified dp \<and> \<not> classification dp \<and> satisfies dp (R ! loc_id dp)")
    case True
    with Cons.prems obtain clause where
      c: "negative_clause dp (M ! loc_id dp) (attr ! loc_id dp) (BoolVal False) = Inr clause"
      and r: "negative_minimal R M attr dps (And_expr e0 clause) = Inr e"
      by (auto simp: Let_def split: sum.splits)
    from Cons.IH[OF r] negative_clause_eval[OF c, of t] True show ?thesis by auto
  next
    case False
    with Cons.prems have "negative_minimal R M attr dps e0 = Inr e"
      by (auto simp: Let_def)
    from Cons.IH[OF this] False show ?thesis by auto
  qed
qed

lemma falsified_eval:
  "eval_expr t (falsified dp m c0) \<longleftrightarrow>
     eval_expr t c0 \<or> (\<exists>pv \<in> set m. int_data dp ! fst pv = 0 \<and> t (snd pv))"
  by (induction m arbitrary: c0) auto

lemma premises_clause_eval:
  "eval_expr t (premises_clause dps attr c0) \<longleftrightarrow>
     eval_expr t c0 \<or>
     (\<exists>dp \<in> set dps. \<exists>pv \<in> set (attr ! loc_id dp). int_data dp ! fst pv = 0 \<and> t (snd pv))"
  by (induction dps arbitrary: c0) (auto simp: falsified_eval)

lemma keep_conclusion_eval:
  "eval_expr t (keep_conclusion c m e0) \<longleftrightarrow>
     eval_expr t e0 \<and> (\<forall>pv \<in> set m. int_data c ! fst pv = 0 \<longrightarrow> \<not> t (snd pv))"
  by (induction m arbitrary: e0) auto

lemma horn_minimal_eval:
  assumes "horn_minimal b R attr hcs e0 = Inr e"
    and "\<forall>hc \<in> set hcs. \<forall>p \<in> set (hc_premises hc). loc_id p < length R"
  shows "eval_expr t e \<longleftrightarrow>
       eval_expr t e0 \<and>
       (\<forall>hc \<in> set hcs. lhs_satisfied R (hc_premises hc) \<longrightarrow>
          (\<exists>dp \<in> set (hc_premises hc). \<exists>pv \<in> set (attr ! loc_id dp).
              int_data dp ! fst pv = 0 \<and> t (snd pv)) \<or>
          (conclusion_satisfied R hc \<and>
           (\<forall>pv \<in> set (attr ! loc_id (the (hc_conclusion hc))).
              int_data (the (hc_conclusion hc)) ! fst pv = 0 \<longrightarrow> \<not> t (snd pv))))"
  using assms
proof (induction hcs arbitrary: e0)
  case Nil
  then show ?case by simp
next
  case (Cons hc hcs)
  from Cons.prems(2) have lp: "\<forall>p \<in> set (hc_premises hc). loc_id p < length R"
    and tl: "\<forall>hc \<in> set hcs. \<forall>p \<in> set (hc_premises hc). loc_id p < length R" by simp_all
  have l: "lhs_satisfied_asserting b R (hc_premises hc) = Inr (lhs_satisfied R (hc_premises hc))"
    using lhs_satisfied_asserting_ok[OF lp] .
  let ?P = "premises_clause (hc_premises hc) attr (BoolVal False)"
  let ?K = "keep_conclusion (the (hc_conclusion hc)) (attr ! loc_id (the (hc_conclusion hc)))
      (BoolVal True)"
  show ?case
  proof (cases "lhs_satisfied R (hc_premises hc)")
    case False
    with Cons.prems(1) l have "horn_minimal b R attr hcs e0 = Inr e" by (simp add: Let_def)
    from Cons.IH[OF this tl] False show ?thesis by simp
  next
    case True
    show ?thesis
    proof (cases "conclusion_satisfied R hc")
      case sat: True
      with Cons.prems(1) l True
      have "horn_minimal b R attr hcs (And_expr e0 (Or_expr ?P ?K)) = Inr e"
        by (simp add: Let_def)
      from Cons.IH[OF this tl] True sat show ?thesis
        by (auto simp: premises_clause_eval keep_conclusion_eval)
    next
      case unsat: False
      with Cons.prems(1) l True
      have "horn_minimal b R attr hcs (And_expr e0 ?P) = Inr e"
        by (simp add: Let_def)
      from Cons.IH[OF this tl] True unsat show ?thesis
        by (auto simp: premises_clause_eval)
    qed
  qed
qed

lemma add_model_location_set:
  "set (add_model_location model m r) =
     set r \<union> {fst pv | pv. pv \<in> set m \<and> model (snd pv) = Some True}"
  by (induction m arbitrary: r) auto

lemma add_model_nth:
  "length ms = length R \<Longrightarrow>
     length (add_model model ms R) = length R \<and>
     (\<forall>k < length R. add_model model ms R ! k = add_model_location model (ms ! k) (R ! k))"
proof (induction ms arbitrary: R)
  case Nil
  then show ?case by simp
next
  case (Cons m ms)
  then obtain r rs where R: "R = r # rs" by (cases R) auto
  with Cons.prems have "length ms = length rs" by simp
  from Cons.IH[OF this] R show ?case by (auto simp: nth_Cons split: nat.splits)
qed

declare solve.simps [simp del]

lemma solve_result:
  "solve z3_check neg horn attr var_count k R = Inr R' \<Longrightarrow>
     \<exists>model k'. z3_check [Formula neg, Formula horn,
                     AtMost (map (\<lambda>pv. Const (snd pv)) (concat attr)) k'] = Inr (Some model) \<and>
       R' = add_model model attr R"
proof (induction z3_check neg horn attr var_count k R rule: solve.induct)
  case (1 z3_check neg horn attr var_count k R)
  let ?q = "z3_check [Formula neg, Formula horn,
                     AtMost (map (\<lambda>pv. Const (snd pv)) (concat attr)) k]"
  show ?case
  proof (cases ?q)
    case (Inl e)
    with "1.prems" show ?thesis by (subst (asm) solve.simps) simp
  next
    case (Inr a)
    show ?thesis
    proof (cases a)
      case None
      with "1.prems" Inr have nk: "\<not> k \<ge> var_count"
        and r: "solve z3_check neg horn attr var_count (k + 1) R = Inr R'"
        by (subst (asm) solve.simps, simp split: if_splits)+
      from "1.IH"[OF Inr None nk r] show ?thesis .
    next
      case (Some model)
      with "1.prems" Inr have "R' = add_model model attr R"
        by (subst (asm) solve.simps) simp
      with Inr Some show ?thesis by blast
    qed
  qed
qed


lemma reduce_predicates_minimal_consistent:
  assumes sx: "list_all (sorted_wrt (<)) X" and sr: "list_all (sorted_wrt (<)) R"
    and wf: "wf_sample (length X) P datapoints horn_constraints"
    and cons: "is_consistent X datapoints horn_constraints"
    and sound: "solver_sound z3_check"
    and run: "reduce_predicates_minimal b z3_check datapoints horn_constraints X R = Inr R'"
  shows "conj_le R' X \<and> is_consistent R' datapoints horn_constraints"
proof -
  let ?st0 = "prepare_sets X R (replicate (length X) [])"
  let ?R0 = "fst ?st0" and ?M0 = "snd ?st0"
  let ?attr = "fst (build_attr2expr 0 ?M0)"
  let ?t = "model_true"
  from run have ne: "X \<noteq> []" and len: "length R = length X"
    by (auto simp: reduce_predicates_minimal_def split: if_splits)
  from run ne len obtain neg horn where
    n: "negative_minimal ?R0 ?M0 ?attr datapoints (BoolVal True) = Inr neg"
    and h: "horn_minimal b ?R0 ?attr horn_constraints (BoolVal True) = Inr horn"
    and s: "solve z3_check neg horn ?attr (snd (build_attr2expr 0 ?M0)) 1 ?R0 = Inr R'"
    by (auto simp: reduce_predicates_minimal_def Let_def split: sum.splits if_splits)
  note locs = wf_sample_locs[OF wf]
  have p0: "partitioned X ?st0" using prepare_sets_partitioned[OF len sx sr] .
  have lR0: "length ?R0 = length X" and lM0: "length ?M0 = length X"
    using p0 by (simp_all add: partitioned_def)
  have la: "length ?attr = length X"
    and keys: "\<And>k. k < length X \<Longrightarrow> map fst (?attr ! k) = ?M0 ! k"
    using build_attr2expr_keys[of 0 ?M0] lM0 by simp_all
  from solve_result[OF s] obtain model k' where
    q: "z3_check [Formula neg, Formula horn,
          AtMost (map (\<lambda>pv. Const (snd pv)) (concat ?attr)) k'] = Inr (Some model)"
    and R': "R' = add_model model ?attr ?R0" by blast
  from sound q have "list_all (model_holds model) [Formula neg, Formula horn,
          AtMost (map (\<lambda>pv. Const (snd pv)) (concat ?attr)) k']"
    unfolding solver_sound_def by blast
  then have tn: "eval_expr (model_true model) neg"
    and th: "eval_expr (model_true model) horn"
    by simp_all
  have lR': "length R' = length X"
    and nth: "\<And>k. k < length X \<Longrightarrow>
      set (R' ! k) = set (?R0 ! k) \<union> {fst pv | pv. pv \<in> set (?attr ! k) \<and> model (snd pv) = Some True}"
    using add_model_nth[of ?attr ?R0 model] la lR0 R' by (simp_all add: add_model_location_set)
  have le0: "conj_le ?R0 R'" using nth lR' lR0 by (auto simp: conj_le_def)
  have leX: "conj_le R' X"
    unfolding conj_le_def
  proof (intro conjI allI impI)
    show "length R' = length X" using lR' .
    fix k assume k: "k < length X"
    have "fst pv \<in> set (X ! k)" if "pv \<in> set (?attr ! k)" for pv
    proof -
      from that have "fst pv \<in> set (map fst (?attr ! k))" by simp
      with keys[OF k] partitionedD(4)[OF p0 k] show ?thesis by auto
    qed
    moreover have "set (?R0 ! k) \<subseteq> set (X ! k)" using partitionedD(4)[OF p0 k] by auto
    ultimately show "set (R' ! k) \<subseteq> set (X ! k)" using nth[OF k] by auto
  qed
  have added: "fst pv \<in> set (R' ! k)"
    if "k < length X" "pv \<in> set (?attr ! k)" "model_true model (snd pv)" for k pv
    using that nth[of k] by (auto simp: model_true_def)
  have "satisfies dp (R' ! loc_id dp) = classification dp"
    if dp: "dp \<in> set datapoints" "is_classified dp" for dp
  proof (cases "classification dp")
    case True
    with cons dp have "satisfies dp (X ! loc_id dp)" by (simp add: is_consistent_iff)
    from conj_le_satisfies[OF leX _ this] locs(1) dp(1) True show ?thesis by simp
  next
    case False
    from locs(1) dp(1) have k: "loc_id dp < length X" by simp
    have "\<not> satisfies dp (R' ! loc_id dp)"
    proof (cases "satisfies dp (?R0 ! loc_id dp)")
      case f: False
      from still_falsified[OF le0 _ f] k lR0 show ?thesis by simp
    next
      case t: True
      from tn negative_minimal_eval[OF n, of "model_true model"] dp False t
      obtain p v where p: "p \<in> set (?M0 ! loc_id dp)" "int_data dp ! p = 0"
        and v: "map_of (?attr ! loc_id dp) p = Some v" "model_true model v" by auto
      from v(1) have "(p, v) \<in> set (?attr ! loc_id dp)" by (rule map_of_SomeD)
      from added[OF k this] v(2) have "p \<in> set (R' ! loc_id dp)" by simp
      with p(2) show ?thesis by (auto simp: satisfies_iff)
    qed
    with False show ?thesis by simp
  qed
  moreover have "horn_ok R' hc" if hc: "hc \<in> set horn_constraints" for hc
    unfolding horn_ok_def
  proof
    assume l': "lhs_satisfied R' (hc_premises hc)"
    from locs(2) hc have lp: "\<forall>p \<in> set (hc_premises hc). loc_id p < length X"
      and lc: "\<forall>c. hc_conclusion hc = Some c \<longrightarrow> loc_id c < length X" by simp_all
    have l0: "lhs_satisfied ?R0 (hc_premises hc)"
    proof (rule ccontr)
      assume "\<not> lhs_satisfied ?R0 (hc_premises hc)"
      from lhs_vacuous_mono[OF le0 _ this] lp lR0 l' show False by simp
    qed
    have lall: "\<forall>hc \<in> set horn_constraints. \<forall>p \<in> set (hc_premises hc). loc_id p < length ?R0"
      using locs(2) lR0 by simp
    from th horn_minimal_eval[OF h lall, of "model_true model"] hc l0
    consider (P) "\<exists>dp \<in> set (hc_premises hc). \<exists>pv \<in> set (?attr ! loc_id dp).
              int_data dp ! fst pv = 0 \<and> model_true model (snd pv)"
      | (K) "conclusion_satisfied ?R0 hc"
          "\<forall>pv \<in> set (?attr ! loc_id (the (hc_conclusion hc))).
              int_data (the (hc_conclusion hc)) ! fst pv = 0 \<longrightarrow> \<not> model_true model (snd pv)"
      by auto
    then show "conclusion_satisfied R' hc"
    proof cases
      case P
      then obtain dp pv where dp: "dp \<in> set (hc_premises hc)"
        and pv: "pv \<in> set (?attr ! loc_id dp)" "int_data dp ! fst pv = 0"
          "model_true model (snd pv)" by blast
      from lp dp have "loc_id dp < length X" by simp
      from added[OF this pv(1) pv(3)] pv(2) have "\<not> satisfies dp (R' ! loc_id dp)"
        by (auto simp: satisfies_iff)
      with l' dp show ?thesis by (simp add: lhs_satisfied_iff)
    next
      case K
      from K(1) obtain c where c: "hc_conclusion hc = Some c" "satisfies c (?R0 ! loc_id c)"
        by (auto simp: conclusion_satisfied_def split: option.splits)
      with lc have kc: "loc_id c < length X" by simp
      have "int_data c ! x \<noteq> 0" if x: "x \<in> set (R' ! loc_id c)" for x
      proof (cases "x \<in> set (?R0 ! loc_id c)")
        case True
        with c(2) show ?thesis by (simp add: satisfies_iff)
      next
        case False
        with x nth[OF kc] obtain pv where pv: "pv \<in> set (?attr ! loc_id c)" "x = fst pv"
          "model (snd pv) = Some True" by auto
        with K(2) c(1) show ?thesis by (auto simp: model_true_def)
      qed
      then have "satisfies c (R' ! loc_id c)" by (simp add: satisfies_iff)
      with c(1) show ?thesis by (simp add: conclusion_satisfied_def)
    qed
  qed
  ultimately have "is_consistent R' datapoints horn_constraints"
    by (simp add: is_consistent_iff)
  with leX show ?thesis by simp
qed

text \<open>The solver that tries one model is sound, whatever the model.\<close>

lemma checking_solver_sound: "solver_sound (checking_solver model)"
  by (auto simp: solver_sound_def checking_solver_def split: if_splits)

subsection \<open>Results of the Sorcar reducers\<close>

lemmas scenario_defs2 = scenario_defs S6_datapoints_def no_model_def all_false_def C5_a_def C5_b_def C5_c_def C5_satisfied_def C5_active_def

lemmas reducer_eval = reduce_predicates_all_def reduce_predicates_first_def
  reduce_predicates_greedy_def reduce_predicates_minimal_def prepare_sets_def prepare_step_def
  upt_rec is_consistent_def horn_loop_all.simps horn_loop_first.simps add_all_def add_first_def
  conclusion_satisfied_def greedy_loop.simps greedy_round_def debug_check_def pick_loop.simps
  entry_value_def pick_def forget_at_def pointer_erase_def map_erase_def enumerate_eq_zip
  solve.simps numeral_2_eq_2 numeral_3_eq_3

text \<open>
  Claim C6. The reducers all, first and greedy never take a predicate of \<open>R \<inter> X\<close> out of
  \<open>R\<close>: whenever the call returns \<open>R'\<close>, in a build with or without assertions, every predicate
  of the starting \<open>R[k]\<close> that lies in \<open>X[k]\<close> is in \<open>R'[k]\<close>. In particular, for
  \<open>R_prev \<subseteq> X_curr\<close> the result contains \<open>R_prev\<close>. A call of the reducer greedy that picks a
  predicate ends in undefined behaviour and returns no \<open>R'\<close> (lemma \<open>pick_invalid\<close>).
\<close>

theorem sorcar_monotone:
  assumes alg: "alg = SORCAR \<or> alg = SORCAR_FIRST \<or> alg = SORCAR_GREEDY"
    and sx: "list_all (sorted_wrt (<)) X"
    and sr: "list_all (sorted_wrt (<)) R"
    and run: "run_sorcar b z3_check alg datapoints horn_constraints X R = Some (Inr R')"
  shows "length R' = length X \<and> (\<forall>k < length X. set (R ! k) \<inter> set (X ! k) \<subseteq> set (R' ! k))"
proof -
  let ?st = "prepare_sets X R (replicate (length X) [])"
  have len: "length R = length X"
  proof (rule ccontr)
    assume "length R \<noteq> length X"
    with run alg show False
      by (auto simp: run_sorcar_def reduce_predicates_all_def reduce_predicates_first_def
          reduce_predicates_greedy_def split: if_splits)
  qed
  note start = prepare_sets_start[OF len sx sr]
  have grow: "conj_le (fst ?st) R'"
  proof -
    consider (a) "alg = SORCAR" | (f) "alg = SORCAR_FIRST" | (g) "alg = SORCAR_GREEDY"
      using alg by blast
    then show ?thesis
    proof cases
      case a
      with run len obtain st1 st2 where n: "negative_all b X datapoints ?st = Inr st1"
        and h: "horn_loop_all b horn_constraints st1 = Inr st2" and r: "R' = fst st2"
        by (auto simp: run_sorcar_def reduce_predicates_all_def
            split: if_splits sum.splits prod.splits)
      from negative_all_grows[OF n] horn_loop_all_grows[OF h] r show ?thesis
        by (auto intro: conj_le_trans)
    next
      case f
      with run len obtain st1 st2 where n: "negative_first b datapoints ?st = Inr st1"
        and h: "horn_loop_first b horn_constraints st1 = Inr st2" and r: "R' = fst st2"
        by (auto simp: run_sorcar_def reduce_predicates_first_def
            split: if_splits sum.splits prod.splits)
      from negative_first_grows[OF n] horn_loop_first_grows[OF h] r show ?thesis
        by (auto intro: conj_le_trans)
    next
      case g
      with run len obtain preds gs where
        h: "greedy_loop b horn_constraints (?st, preds) = Some (Inr gs)" and r: "R' = fst (fst gs)"
        by (auto simp: run_sorcar_def reduce_predicates_greedy_def Let_def
            split: if_splits sum.splits option.splits)
      from greedy_loop_grows[OF h] r show ?thesis by simp
    qed
  qed
  from grow start(1) have l: "length R' = length X" by (simp add: conj_le_def)
  have "set (R ! k) \<inter> set (X ! k) \<subseteq> set (R' ! k)" if k: "k < length X" for k
  proof -
    from grow l k have "set (fst ?st ! k) \<subseteq> set (R' ! k)" by (simp add: conj_le_def)
    with start(2)[OF k] show ?thesis by simp
  qed
  with l show ?thesis by simp
qed

theorem sorcar_monotone_witness:
  "run_sorcar Debug no_model SORCAR_FIRST S6_datapoints [] [[0, 1, 2, 3]] [[2]] =
     Some (Inr [[0, 2]]) \<and>
   length [[0, 2 :: nat]] = length [[0, 1, 2, 3 :: nat]] \<and>
   set ([[2]] ! 0) \<inter> set ([[0, 1, 2, 3]] ! 0) \<subseteq> set ([[0, 2 :: nat]] ! 0)"
proof -
  have h1: "SORCAR_FIRST = SORCAR \<or> SORCAR_FIRST = SORCAR_FIRST \<or> SORCAR_FIRST = SORCAR_GREEDY"
    by simp
  have h2: "list_all (sorted_wrt (<)) [[0, 1, 2, 3 :: nat]]" by simp
  have h3: "list_all (sorted_wrt (<)) [[2 :: nat]]" by simp
  have h4: "run_sorcar Debug no_model SORCAR_FIRST S6_datapoints [] [[0, 1, 2, 3]] [[2]] =
      Some (Inr [[0, 2]])"
    by (simp add: run_sorcar_def reducer_eval scenario_defs2)
  from sorcar_monotone[OF h1 h2 h3 h4] h4 show ?thesis by simp
qed

text \<open>
  On the same input the reducer greedy has to add predicate \<open>0\<close>: it picks it and, in the
  loop over the negative data points recorded under it, erases the data point the loop
  stands on.
\<close>

lemma greedy_pick_undefined:
  "reduce_predicates_greedy b S6_datapoints [] [[0, 1, 2, 3]] [[2]] = Some (Inl InvalidIterator)"
  by (simp add: reducer_eval scenario_defs2)

text \<open>
  Claim C1, as amended. A call of one of the four reducers that returns, returns a
  conjunction vector that is consistent with the data points and the Horn constraints,
  provided that the program is built with assertions, where the last statement of every
  reducer is \<^verbatim>\<open>assert (is_consistent(R, datapoints, horn_constraints))\<close>, or that the reducer
  is called as \<^verbatim>\<open>main\<close> means to call it: on a well-formed sample, with \<open>X\<close> and \<open>R\<close> sets of
  predicates, with an \<open>X\<close> that is consistent with the sample and, for the reducer minimal,
  with a solver whose models satisfy the assertions they are models of. In the second case
  it is the reducers themselves that make \<open>R\<close> consistent, in a build without assertions as
  well: all and first repair every negative data point and every Horn constraint, minimal
  adds what the model of the two formulas says, and greedy returns only when there is
  nothing to add.
\<close>

theorem sorcar_consistent:
  assumes run: "run_sorcar b z3_check alg datapoints horn_constraints X R = Some (Inr R')"
    and pre: "b = Debug \<or>
      (list_all (sorted_wrt (<)) X \<and> list_all (sorted_wrt (<)) R \<and>
       wf_sample (length X) P datapoints horn_constraints \<and>
       is_consistent X datapoints horn_constraints \<and>
       (alg = SORCAR_MINIMAL \<longrightarrow> solver_sound z3_check))"
  shows "is_consistent R' datapoints horn_constraints"
  using pre
proof
  assume "b = Debug"
  with run show ?thesis
    by (auto simp: run_sorcar_def reduce_predicates_all_def reduce_predicates_first_def
        reduce_predicates_greedy_def reduce_predicates_minimal_def Let_def
        split: if_splits sum.splits prod.splits option.splits)
next
  assume a: "list_all (sorted_wrt (<)) X \<and> list_all (sorted_wrt (<)) R \<and>
       wf_sample (length X) P datapoints horn_constraints \<and>
       is_consistent X datapoints horn_constraints \<and>
       (alg = SORCAR_MINIMAL \<longrightarrow> solver_sound z3_check)"
  then have sx: "list_all (sorted_wrt (<)) X" and sr: "list_all (sorted_wrt (<)) R"
    and wf: "wf_sample (length X) P datapoints horn_constraints"
    and cons: "is_consistent X datapoints horn_constraints"
    and sound: "alg = SORCAR_MINIMAL \<longrightarrow> solver_sound z3_check" by simp_all
  consider (f) "alg = SORCAR_FIRST" | (g) "alg = SORCAR_GREEDY" | (m) "alg = SORCAR_MINIMAL"
    | (a) "alg \<noteq> SORCAR_FIRST" "alg \<noteq> SORCAR_GREEDY" "alg \<noteq> SORCAR_MINIMAL" by blast
  then show ?thesis
  proof cases
    case f
    with run have r: "reduce_predicates_first b datapoints horn_constraints X R = Inr R'"
      by (simp add: run_sorcar_def)
    then have "X \<noteq> []" "length R = length X"
      by (auto simp: reduce_predicates_first_def split: if_splits)
    from reduce_predicates_first_succeeds[OF this sx sr wf cons, of b] r show ?thesis by simp
  next
    case g
    with run have "reduce_predicates_greedy b datapoints horn_constraints X R = Some (Inr R')"
      by (simp add: run_sorcar_def)
    from reduce_predicates_greedy_consistent[OF sx sr wf cons this] show ?thesis by blast
  next
    case m
    with run have
      "reduce_predicates_minimal b z3_check datapoints horn_constraints X R = Inr R'"
      by (simp add: run_sorcar_def)
    from reduce_predicates_minimal_consistent[OF sx sr wf cons _ this] m sound
    show ?thesis by simp
  next
    case a
    with run have r: "reduce_predicates_all b datapoints horn_constraints X R = Inr R'"
      by (simp add: run_sorcar_def)
    then have "X \<noteq> []" "length R = length X"
      by (auto simp: reduce_predicates_all_def split: if_splits)
    from reduce_predicates_all_succeeds[OF this sx sr wf cons, of b] r show ?thesis by simp
  qed
qed

theorem sorcar_consistent_witness:
  "run_sorcar NDEBUG (checking_solver (\<lambda>v. Some (v = 0))) SORCAR_MINIMAL S6_datapoints []
     [[0, 1, 2, 3]] [[2]] = Some (Inr [[0, 2]]) \<and>
   wf_sample (length [[0, 1, 2, 3 :: nat]]) 4 S6_datapoints [] \<and>
   is_consistent [[0, 1, 2, 3]] S6_datapoints [] \<and>
   is_consistent [[0, 2]] S6_datapoints []"
proof -
  have h: "run_sorcar NDEBUG (checking_solver (\<lambda>v. Some (v = 0))) SORCAR_MINIMAL S6_datapoints []
     [[0, 1, 2, 3]] [[2]] = Some (Inr [[0, 2]])"
    by (simp add: run_sorcar_def reducer_eval scenario_defs2 checking_solver_def
        model_true_def)
  have h2: "list_all (sorted_wrt (<)) [[0, 1, 2, 3 :: nat]]" by simp
  have h3: "list_all (sorted_wrt (<)) [[2 :: nat]]" by simp
  have h4: "wf_sample (length [[0, 1, 2, 3 :: nat]]) 4 S6_datapoints []"
    by (simp add: wf_sample_def wf_datapoint_def loc_id_def scenario_defs2)
  have h5: "is_consistent [[0, 1, 2, 3]] S6_datapoints []"
    by (simp add: is_consistent_def scenario_defs2)
  have h6: "SORCAR_MINIMAL = SORCAR_MINIMAL \<longrightarrow>
      solver_sound (checking_solver (\<lambda>v. Some (v = 0)))"
    by (simp add: checking_solver_sound)
  from h2 h3 h4 h5 h6 have pre: "NDEBUG = Debug \<or>
      (list_all (sorted_wrt (<)) [[0, 1, 2, 3 :: nat]] \<and> list_all (sorted_wrt (<)) [[2 :: nat]] \<and>
       wf_sample (length [[0, 1, 2, 3 :: nat]]) 4 S6_datapoints [] \<and>
       is_consistent [[0, 1, 2, 3]] S6_datapoints [] \<and>
       (SORCAR_MINIMAL = SORCAR_MINIMAL \<longrightarrow> solver_sound (checking_solver (\<lambda>v. Some (v = 0)))))"
    by blast
  from sorcar_consistent[OF h pre] h h4 h5 show ?thesis by simp
qed

text \<open>
  Claim C1 as stated fails in a build without assertions. On the single negative data point
  \<open>[1]\<close> Horndini returns \<open>X = {0}\<close>, which the data point satisfies; the reducer all, called
  with this \<open>X\<close> and the empty \<open>R\<close>, finds no predicate to add and returns the empty
  conjunction, which the negative data point satisfies as well. And with a solver whose
  model makes every constant false, the reducer minimal returns \<open>{2}\<close> on the sample S6,
  whose second negative data point satisfies it, although \<open>X = {0, 1, 2, 3}\<close> is consistent.
\<close>

theorem sorcar_inconsistent_counterexample:
  "reduce_predicates_all NDEBUG [negative_dp [1]] [] [[0]] [[]] = Inr [[]] \<and>
   \<not> is_consistent [[]] [negative_dp [1]] [] \<and>
   reduce_predicates_minimal NDEBUG all_false S6_datapoints [] [[0, 1, 2, 3]] [[2]] = Inr [[2]] \<and>
   is_consistent [[0, 1, 2, 3]] S6_datapoints [] \<and>
   \<not> is_consistent [[2]] S6_datapoints []"
  by (simp add: reducer_eval scenario_defs2)

text \<open>
  Claim C4, as amended. On scenario S1 Horndini returns \<open>X = {0, 3}\<close>. Started from the empty
  \<open>R\<close>, the reducers all, first and greedy return the empty conjunction: there is no negative
  data point and no Horn constraint, so nothing is added. The minimal reducer asks the solver
  for a model of the bound \<open>k = 1\<close> and returns the predicates of \<open>{0, 3}\<close> whose constant the
  model makes true.
\<close>

theorem S1_results:
  "horndini S1_datapoints [] [(0, 3)] = Some (Inr [[0, 3]]) \<and>
   reduce_predicates_all b S1_datapoints [] [[0, 3]] [[]] = Inr [[]] \<and>
   reduce_predicates_first b S1_datapoints [] [[0, 3]] [[]] = Inr [[]] \<and>
   reduce_predicates_greedy b S1_datapoints [] [[0, 3]] [[]] = Some (Inr [[]]) \<and>
   (z3_check [Formula (BoolVal True), Formula (BoolVal True), AtMost [Const 0, Const 1] 1] =
      Inr (Some model) \<longrightarrow>
    reduce_predicates_minimal b z3_check S1_datapoints [] [[0, 3]] [[]] =
      Inr [(if model 0 = Some True then [0] else []) @ (if model 1 = Some True then [3] else [])])"
proof -
  have 1: "horndini S1_datapoints [] [(0, 3)] = Some (Inr [[0, 3]])"
    by (simp add: horndini_eval scenario_defs)
  have 2: "reduce_predicates_all b S1_datapoints [] [[0, 3]] [[]] = Inr [[]]"
    by (simp add: reducer_eval scenario_defs)
  have 3: "reduce_predicates_first b S1_datapoints [] [[0, 3]] [[]] = Inr [[]]"
    by (simp add: reducer_eval scenario_defs)
  have 4: "reduce_predicates_greedy b S1_datapoints [] [[0, 3]] [[]] = Some (Inr [[]])"
    by (simp add: reducer_eval scenario_defs)
  have 5: "reduce_predicates_minimal b z3_check S1_datapoints [] [[0, 3]] [[]] =
      Inr [(if model 0 = Some True then [0] else []) @ (if model 1 = Some True then [3] else [])]"
    if "z3_check [Formula (BoolVal True), Formula (BoolVal True), AtMost [Const 0, Const 1] 1] =
      Inr (Some model)"
    using that by (simp add: reducer_eval scenario_defs)
  from 1 2 3 4 5 show ?thesis by blast
qed

theorem S1_results_witness:
  "all_false [Formula (BoolVal True), Formula (BoolVal True), AtMost [Const 0, Const 1] 1] =
      Inr (Some (\<lambda>v. Some False)) \<and>
   reduce_predicates_minimal Debug all_false S1_datapoints [] [[0, 3]] [[]] = Inr [[]]"
proof -
  have h: "all_false [Formula (BoolVal True), Formula (BoolVal True), AtMost [Const 0, Const 1] 1] =
      Inr (Some (\<lambda>v. Some False))"
    by (simp add: all_false_def)
  from S1_results[of Debug all_false "\<lambda>v. Some False"] h show ?thesis by simp
qed

text \<open>
  Claim C4 as stated fails: on S1 the reducer all, started from the empty \<open>R\<close>, returns the
  empty conjunction and not \<open>{0, 3}\<close>.
\<close>

theorem S1_sorcar_counterexample:
  "reduce_predicates_all Debug S1_datapoints [] [[0, 3]] [[]] = Inr [[]] \<and>
   reduce_predicates_all Debug S1_datapoints [] [[0, 3]] [[]] \<noteq> Inr [[0, 3]]"
  by (simp add: reducer_eval scenario_defs)

text \<open>
  Claim C5, as amended. In the Horn pass of the reducers all and first, a constraint that
  is found satisfied (its premises satisfy \<open>R\<close> and its conclusion, not \<open>\<bottom>\<close>, satisfies \<open>R\<close>) stays in
  the list: it is the head of the list that the walk leaves behind, and when the walk has
  repaired some other constraint, the next walk starts with it again.
\<close>

theorem satisfied_constraint_kept:
  assumes lhs: "lhs_satisfied_asserting b (fst st) (hc_premises hc) = Inr True"
    and sat: "conclusion_satisfied (fst st) hc"
  shows "(scan_all b (hc # hcs) st = Inr (hcs', st', flag) \<longrightarrow>
            hcs' \<noteq> [] \<and> hd hcs' = hc \<and> scan_all b hcs st = Inr (tl hcs', st', flag) \<and>
            (\<not> flag \<longrightarrow> horn_loop_all b (hc # hcs) st = horn_loop_all b hcs' st')) \<and>
         (scan_first b (hc # hcs) st = Inr (hcs', st', flag) \<longrightarrow>
            hcs' \<noteq> [] \<and> hd hcs' = hc \<and> scan_first b hcs st = Inr (tl hcs', st', flag) \<and>
            (\<not> flag \<longrightarrow> horn_loop_first b (hc # hcs) st = horn_loop_first b hcs' st'))"
proof (intro conjI impI)
  assume s: "scan_all b (hc # hcs) st = Inr (hcs', st', flag)"
  with lhs sat obtain hcs1 where t: "scan_all b hcs st = Inr (hcs1, st', flag)"
    and h: "hcs' = hc # hcs1"
    by (auto split: sum.splits prod.splits)
  from h show "hcs' \<noteq> []" "hd hcs' = hc" by simp_all
  from t h show "scan_all b hcs st = Inr (tl hcs', st', flag)" by simp
  assume "\<not> flag"
  with s show "horn_loop_all b (hc # hcs) st = horn_loop_all b hcs' st'"
    by (subst horn_loop_all.simps) simp
next
  assume s: "scan_first b (hc # hcs) st = Inr (hcs', st', flag)"
  with lhs sat obtain hcs1 where t: "scan_first b hcs st = Inr (hcs1, st', flag)"
    and h: "hcs' = hc # hcs1"
    by (auto split: sum.splits prod.splits)
  from h show "hcs' \<noteq> []" "hd hcs' = hc" by simp_all
  from t h show "scan_first b hcs st = Inr (tl hcs', st', flag)" by simp
  assume "\<not> flag"
  with s show "horn_loop_first b (hc # hcs) st = horn_loop_first b hcs' st'"
    by (subst horn_loop_first.simps) simp
qed

theorem satisfied_constraint_kept_witness:
  "scan_all Debug (C5_satisfied # [C5_active]) ([[]], [[0, 1, 2]]) =
     Inr ([C5_satisfied], ([[0, 2]], [[1]]), False) \<and>
   hd [C5_satisfied] = C5_satisfied \<and>
   horn_loop_all Debug (C5_satisfied # [C5_active]) ([[]], [[0, 1, 2]]) =
     horn_loop_all Debug [C5_satisfied] ([[0, 2]], [[1]])"
proof -
  have h1: "lhs_satisfied_asserting Debug (fst ([[]], [[0, 1, 2 :: nat]])) (hc_premises C5_satisfied) = Inr True"
    by (simp add: scenario_defs2)
  have h2: "conclusion_satisfied (fst ([[]], [[0, 1, 2 :: nat]])) C5_satisfied"
    by (simp add: scenario_defs2 conclusion_satisfied_def)
  have h3: "scan_all Debug (C5_satisfied # [C5_active]) ([[]], [[0, 1, 2]]) =
     Inr ([C5_satisfied], ([[0, 2]], [[1]]), False)"
    by (simp add: scenario_defs2 conclusion_satisfied_def add_all_def)
  from satisfied_constraint_kept[OF h1 h2, of "[C5_active]" "[C5_satisfied]" "([[0, 2]], [[1]])" False]
    h3 show ?thesis by simp
qed

text \<open>
  Claim C5 as stated fails: \<open>{a} \<Rightarrow> b\<close> is satisfied under the empty \<open>R\<close> in the first walk and
  is still in the list after it; the second walk looks at it again, finds its conclusion
  no longer satisfied (the first walk added predicates \<open>0\<close> and \<open>2\<close> for \<open>{c} \<Rightarrow> \<bottom>\<close>) and adds
  predicate \<open>1\<close>.
\<close>

theorem satisfied_constraint_dropped_counterexample:
  "lhs_satisfied [[]] (hc_premises C5_satisfied) \<and>
   conclusion_satisfied [[]] C5_satisfied \<and>
   scan_all Debug [C5_satisfied, C5_active] ([[]], [[0, 1, 2]]) =
     Inr ([C5_satisfied], ([[0, 2]], [[1]]), False) \<and>
   scan_all Debug [C5_satisfied] ([[0, 2]], [[1]]) = Inr ([], ([[0, 1, 2]], [[]]), False) \<and>
   reduce_predicates_all Debug [C5_a, C5_b, C5_c] [C5_satisfied, C5_active] [[0, 1, 2]] [[]] =
     Inr [[0, 1, 2]]"
  by (simp add: reducer_eval scenario_defs2)

end
